theory Spec2Isabelle
  imports Main "HOL-Library.Sublist"
begin

section \<open>Shared vocabulary of the three worker pools\<close>

text \<open>
  The repository contains three classes called \<open>WorkerPool\<close>:
  \<^item> the \<open>worker_threads\<close> pool of \<open>worker-pool.js\<close> (src/unnamed/part_013), with a stack
    \<open>freeWorkers\<close> of idle workers (prefix \<open>tp_\<close>);
  \<^item> the slot pool of \<open>examples/14-worker-threads/worker-demo.js\<close>, which creates one
    \<open>Worker\<close> per task inside a fixed array of slots (prefix \<open>sp_\<close>);
  \<^item> the \<open>child_process\<close> pool of \<open>pool.js\<close> (src/12-child-process.md), which forks one
    process per worker and re-forks on every exit (prefix \<open>cp_\<close>).
  JavaScript objects are referred to by identity: a worker, a task and a promise are each
  named by a natural number handed out by a counter of the pool state. The fields of the
  worker objects live in maps from that identity, so that the arrays hold references.
\<close>

text \<open>The object literal \<open>{ data, resolve, reject }\<close>: the promise is named by \<open>tid\<close>.\<close>

record task =
  tid :: nat
  data :: nat

text \<open>
  What a promise (or a node-style callback) is called with: \<open>resolve(result)\<close>,
  \<open>reject(err)\<close>, or worker-demo's
  \<open>reject(new Error(`Worker stopped with code ${code}`))\<close>.
\<close>

datatype outcome = Resolved nat | Rejected nat | RejectedExit int

text \<open>
  How a handler ends: it returns, or it throws a TypeError; either way it leaves a state.
  An uncaught exception ends the Node process. The runs below carry on from the state the
  handler left, which adds runs and takes none away.
\<close>

datatype 's handled = Returned 's | TypeError 's

fun after :: "'s handled \<Rightarrow> 's" where
  "after (Returned s) = s"
| "after (TypeError s) = s"

subsection \<open>Array primitives\<close>

text \<open>\<open>Array.prototype.pop\<close>: the last element and the rest, \<open>undefined\<close> on \<open>[]\<close>.\<close>

definition pop :: "'a list \<Rightarrow> ('a \<times> 'a list) option" where
  "pop xs = (if xs = [] then None else Some (last xs, butlast xs))"

text \<open>\<open>Array.prototype.shift\<close>: the first element and the rest.\<close>

definition shift :: "'a list \<Rightarrow> ('a \<times> 'a list) option" where
  "shift xs = (case xs of [] \<Rightarrow> None | x # r \<Rightarrow> Some (x, r))"

text \<open>\<open>Array.prototype.indexOf\<close>: the first position of the element, \<open>-1\<close> when absent.\<close>

fun indexOf :: "'a list \<Rightarrow> 'a \<Rightarrow> int" where
  "indexOf [] x = - 1"
| "indexOf (y # ys) x =
     (if y = x then 0 else (let i = indexOf ys x in if i < 0 then - 1 else i + 1))"

text \<open>
  \<open>Array.prototype.splice(start, deleteCount)\<close>, the array that remains: a negative
  \<open>start\<close> counts from the end, so \<open>splice(-1, 1)\<close> removes the last element.
\<close>

definition splice_js :: "int \<Rightarrow> nat \<Rightarrow> 'a list \<Rightarrow> 'a list" where
  "splice_js start cnt xs =
     (let n = int (length xs);
          k = nat (if start < 0 then max (n + start) 0 else min start n)
      in take k xs @ drop (k + cnt) xs)"

text \<open>\<open>Array.prototype.findIndex\<close>, used for \<open>find\<close> on an array of slot objects.\<close>

fun findIndex :: "('a \<Rightarrow> bool) \<Rightarrow> 'a list \<Rightarrow> nat option" where
  "findIndex P [] = None"
| "findIndex P (x # xs) =
     (if P x then Some 0 else map_option Suc (findIndex P xs))"

section \<open>The worker\_threads pool of worker-pool.js\<close>

text \<open>
  \<open>tp_posted\<close> logs every \<open>worker.postMessage(task.data)\<close> as (worker, task) and
  \<open>tp_settled\<close> every call of a task's \<open>resolve\<close> or \<open>reject\<close>, both in program order.
  \<open>tp_dead\<close> holds the workers that \<open>terminate()\<close> was called on.
\<close>

record tp_pool =
  tp_poolSize :: nat
  tp_workers :: "nat list"
  tp_freeWorkers :: "nat list"
  tp_queue :: "task list"
  tp_currentTask :: "nat \<Rightarrow> task option"
  tp_posted :: "(nat \<times> nat) list"
  tp_settled :: "(nat \<times> outcome) list"
  tp_dead :: "nat set"
  tp_nextWorker :: nat
  tp_nextTask :: nat

definition tp_addWorker :: "tp_pool \<Rightarrow> tp_pool" where
  "tp_addWorker s =
     (let w = tp_nextWorker s
      in s\<lparr>tp_workers := tp_workers s @ [w],
           tp_freeWorkers := tp_freeWorkers s @ [w],
           tp_currentTask := (tp_currentTask s)(w := None),
           tp_nextWorker := Suc w\<rparr>)"

fun tp_addWorkers :: "nat \<Rightarrow> tp_pool \<Rightarrow> tp_pool" where
  "tp_addWorkers 0 s = s"
| "tp_addWorkers (Suc i) s = tp_addWorkers i (tp_addWorker s)"

text \<open>The constructor: empty arrays, then \<open>poolSize\<close> calls of \<open>addWorker\<close>.\<close>

definition tp_new :: "nat \<Rightarrow> tp_pool" where
  "tp_new n =
     tp_addWorkers n
       \<lparr>tp_poolSize = n, tp_workers = [], tp_freeWorkers = [], tp_queue = [],
        tp_currentTask = (\<lambda>_. None), tp_posted = [], tp_settled = [],
        tp_dead = {}, tp_nextWorker = 0, tp_nextTask = 0\<rparr>"

definition tp_runTaskOnWorker :: "tp_pool \<Rightarrow> nat \<Rightarrow> task \<Rightarrow> tp_pool" where
  "tp_runTaskOnWorker s w t =
     s\<lparr>tp_currentTask := (tp_currentTask s)(w := Some t),
       tp_posted := tp_posted s @ [(w, tid t)]\<rparr>"

definition tp_runTask :: "tp_pool \<Rightarrow> nat \<Rightarrow> tp_pool" where
  "tp_runTask s d =
     (let t = \<lparr>tid = tp_nextTask s, data = d\<rparr>;
          s1 = s\<lparr>tp_nextTask := Suc (tp_nextTask s)\<rparr>
      in case pop (tp_freeWorkers s1) of
           Some (w, rest) \<Rightarrow> tp_runTaskOnWorker (s1\<lparr>tp_freeWorkers := rest\<rparr>) w t
         | None \<Rightarrow> s1\<lparr>tp_queue := tp_queue s1 @ [t]\<rparr>)"

definition tp_runNext :: "tp_pool \<Rightarrow> tp_pool" where
  "tp_runNext s =
     (if length (tp_queue s) = 0 then s
      else case pop (tp_freeWorkers s) of
             None \<Rightarrow> s
           | Some (w, rest) \<Rightarrow>
               (case shift (tp_queue s) of
                  None \<Rightarrow> s
                | Some (t, q) \<Rightarrow>
                    tp_runTaskOnWorker (s\<lparr>tp_freeWorkers := rest, tp_queue := q\<rparr>) w t))"

text \<open>
  The \<open>'message'\<close> handler of a worker. Its first statement,
  \<open>worker.currentTask.resolve(result)\<close>, throws a TypeError on a worker whose
  \<open>currentTask\<close> is \<open>null\<close>, before anything is changed.
\<close>

definition tp_onMessage :: "tp_pool \<Rightarrow> nat \<Rightarrow> nat \<Rightarrow> tp_pool handled" where
  "tp_onMessage s w r =
     (case tp_currentTask s w of
        None \<Rightarrow> TypeError s
      | Some t \<Rightarrow>
          Returned (tp_runNext
            (s\<lparr>tp_settled := tp_settled s @ [(tid t, Resolved r)],
               tp_currentTask := (tp_currentTask s)(w := None),
               tp_freeWorkers := tp_freeWorkers s @ [w]\<rparr>)))"

text \<open>The \<open>'error'\<close> handler of a worker.\<close>

definition tp_onError :: "tp_pool \<Rightarrow> nat \<Rightarrow> nat \<Rightarrow> tp_pool" where
  "tp_onError s w e =
     (case tp_currentTask s w of
        Some t \<Rightarrow>
          s\<lparr>tp_settled := tp_settled s @ [(tid t, Rejected e)],
            tp_currentTask := (tp_currentTask s)(w := None)\<rparr>
      | None \<Rightarrow> s)"

text \<open>\<open>close()\<close>: \<open>worker.terminate()\<close> on every element of \<open>this.workers\<close>.\<close>

definition tp_close :: "tp_pool \<Rightarrow> tp_pool" where
  "tp_close s = fold (\<lambda>w st. st\<lparr>tp_dead := insert w (tp_dead st)\<rparr>) (tp_workers s) s"

text \<open>
  What can happen to a pool: a call of \<open>runTask\<close> or \<open>close\<close>, or a \<open>'message'\<close> or
  an \<open>'error'\<close> of a worker, which runs the handler that \<open>addWorker\<close> installed on it. The
  handlers do not look at whether the worker was terminated, and neither do the steps:
  an event of any worker of the pool is handled, whenever it comes.
\<close>

datatype tp_event =
  TP_runTask nat | TP_message nat nat | TP_error nat nat | TP_close

fun tp_step :: "tp_pool \<Rightarrow> tp_event \<Rightarrow> tp_pool" where
  "tp_step s (TP_runTask d) = tp_runTask s d"
| "tp_step s (TP_message w r) =
     (if w \<in> set (tp_workers s) then after (tp_onMessage s w r) else s)"
| "tp_step s (TP_error w e) =
     (if w \<in> set (tp_workers s) then tp_onError s w e else s)"
| "tp_step s TP_close = tp_close s"

definition tp_run :: "tp_pool \<Rightarrow> tp_event list \<Rightarrow> tp_pool" where
  "tp_run s evs = foldl tp_step s evs"

section \<open>The slot pool of worker-demo.js\<close>

text \<open>A slot object \<open>{ worker, busy }\<close>; \<open>worker\<close> is \<open>null\<close> or a Worker.\<close>

record slot =
  worker :: "nat option"
  busy :: bool

text \<open>
  \<open>sp_workers\<close> is the array of slots; a slot is referred to by its index. Every Worker is
  created inside \<open>runTask(workerSlot, task)\<close> and its three handlers close over that slot
  and that task: \<open>sp_handlers\<close> keeps the pair for each Worker. \<open>sp_started\<close> logs every
  \<open>new Worker\<close> as (worker, task), \<open>sp_settled\<close> every call of a task's \<open>resolve\<close> or
  \<open>reject\<close>. \<open>sp_dead\<close> holds the Workers that \<open>terminate()\<close> was called on,
  \<open>sp_exited\<close> those that emitted \<open>'exit'\<close>.
\<close>

record sp_pool =
  sp_poolSize :: nat
  sp_workers :: "slot list"
  sp_queue :: "task list"
  sp_handlers :: "nat \<Rightarrow> (nat \<times> task) option"
  sp_started :: "(nat \<times> nat) list"
  sp_settled :: "(nat \<times> outcome) list"
  sp_dead :: "nat set"
  sp_exited :: "nat set"
  sp_nextWorker :: nat
  sp_nextTask :: nat

text \<open>The constructor pushes \<open>poolSize\<close> slots \<open>{ worker: null, busy: false }\<close>.\<close>

definition sp_new :: "nat \<Rightarrow> sp_pool" where
  "sp_new n =
     \<lparr>sp_poolSize = n, sp_workers = replicate n \<lparr>worker = None, busy = False\<rparr>,
      sp_queue = [], sp_handlers = (\<lambda>_. None), sp_started = [], sp_settled = [],
      sp_dead = {}, sp_exited = {}, sp_nextWorker = 0, sp_nextTask = 0\<rparr>"

text \<open>\<open>runTask(workerSlot, task)\<close>: mark the slot busy and start a Worker in it.\<close>

definition sp_runTask :: "sp_pool \<Rightarrow> nat \<Rightarrow> task \<Rightarrow> sp_pool" where
  "sp_runTask s i t =
     (let w = sp_nextWorker s
      in s\<lparr>sp_workers := (sp_workers s)[i := \<lparr>worker = Some w, busy = True\<rparr>],
           sp_handlers := (sp_handlers s)(w := Some (i, t)),
           sp_started := sp_started s @ [(w, tid t)],
           sp_nextWorker := Suc w\<rparr>)"

text \<open>\<open>execute(data)\<close>: the first slot that is not busy, or the queue.\<close>

definition sp_execute :: "sp_pool \<Rightarrow> nat \<Rightarrow> sp_pool" where
  "sp_execute s d =
     (let t = \<lparr>tid = sp_nextTask s, data = d\<rparr>;
          s1 = s\<lparr>sp_nextTask := Suc (sp_nextTask s)\<rparr>
      in case findIndex (\<lambda>sl. \<not> busy sl) (sp_workers s1) of
           Some i \<Rightarrow> sp_runTask s1 i t
         | None \<Rightarrow> s1\<lparr>sp_queue := sp_queue s1 @ [t]\<rparr>)"

definition sp_finishTask :: "sp_pool \<Rightarrow> nat \<Rightarrow> sp_pool" where
  "sp_finishTask s i =
     (let s1 = s\<lparr>sp_workers := (sp_workers s)[i := \<lparr>worker = None, busy = False\<rparr>]\<rparr>
      in if length (sp_queue s1) > 0
         then (case shift (sp_queue s1) of
                 Some (t, q) \<Rightarrow> sp_runTask (s1\<lparr>sp_queue := q\<rparr>) i t
               | None \<Rightarrow> s1)
         else s1)"

text \<open>
  The three handlers that \<open>runTask\<close> installs on the Worker it creates; a Worker that
  was never created has none.
\<close>

definition sp_onMessage :: "sp_pool \<Rightarrow> nat \<Rightarrow> nat \<Rightarrow> sp_pool" where
  "sp_onMessage s w r =
     (case sp_handlers s w of
        None \<Rightarrow> s
      | Some (i, t) \<Rightarrow>
          sp_finishTask (s\<lparr>sp_settled := sp_settled s @ [(tid t, Resolved r)]\<rparr>) i)"

definition sp_onError :: "sp_pool \<Rightarrow> nat \<Rightarrow> nat \<Rightarrow> sp_pool" where
  "sp_onError s w e =
     (case sp_handlers s w of
        None \<Rightarrow> s
      | Some (i, t) \<Rightarrow>
          sp_finishTask (s\<lparr>sp_settled := sp_settled s @ [(tid t, Rejected e)]\<rparr>) i)"

definition sp_onExit :: "sp_pool \<Rightarrow> nat \<Rightarrow> int \<Rightarrow> sp_pool" where
  "sp_onExit s w code =
     (case sp_handlers s w of
        None \<Rightarrow> s
      | Some (i, t) \<Rightarrow>
          if code \<noteq> 0
          then s\<lparr>sp_settled := sp_settled s @ [(tid t, RejectedExit code)]\<rparr>
          else s)"

text \<open>
  One iteration of the loop of \<open>terminate()\<close>: \<open>if (slot.worker) await
  slot.worker.terminate()\<close>, reading the slot when the iteration runs.
\<close>

definition sp_terminateSlot :: "sp_pool \<Rightarrow> nat \<Rightarrow> sp_pool" where
  "sp_terminateSlot s i =
     (case worker (sp_workers s ! i) of
        Some w \<Rightarrow> s\<lparr>sp_dead := insert w (sp_dead s)\<rparr>
      | None \<Rightarrow> s)"

definition sp_terminate :: "sp_pool \<Rightarrow> sp_pool" where
  "sp_terminate s = fold (\<lambda>i st. sp_terminateSlot st i) [0..<length (sp_workers s)] s"

text \<open>
  What can happen to a pool: a call of \<open>execute\<close> or \<open>terminate\<close>, or an event of a
  Worker that \<open>runTask\<close> created. The \<open>'message'\<close> and \<open>'error'\<close> handlers do not look
  at whether the slot still holds their Worker, and the script of worker-demo.js can post
  more than once, so these events are handled whenever they come. A Worker emits
  \<open>'exit'\<close> once.
\<close>

datatype sp_event =
  SP_execute nat | SP_message nat nat | SP_error nat nat | SP_exit nat int | SP_terminate

fun sp_step :: "sp_pool \<Rightarrow> sp_event \<Rightarrow> sp_pool" where
  "sp_step s (SP_execute d) = sp_execute s d"
| "sp_step s (SP_message w r) = sp_onMessage s w r"
| "sp_step s (SP_error w e) = sp_onError s w e"
| "sp_step s (SP_exit w code) =
     (if sp_handlers s w \<noteq> None \<and> w \<notin> sp_exited s
      then (let s' = sp_onExit s w code in s'\<lparr>sp_exited := insert w (sp_exited s')\<rparr>)
      else s)"
| "sp_step s SP_terminate = sp_terminate s"

definition sp_run :: "sp_pool \<Rightarrow> sp_event list \<Rightarrow> sp_pool" where
  "sp_run s evs = foldl sp_step s evs"

section \<open>The child\_process pool of pool.js\<close>

text \<open>
  The reply of a worker process: \<open>{ error }\<close> or \<open>{ result }\<close>, with numbers for values;
  \<open>msg_error = None\<close> is a reply without the property. The handler tests
  \<open>if (msg.error)\<close>: a missing error and the number 0 are falsy.
\<close>

record cp_msg =
  msg_error :: "nat option"
  msg_result :: nat

fun truthy :: "nat option \<Rightarrow> bool" where
  "truthy None = False"
| "truthy (Some e) = (e \<noteq> 0)"

text \<open>
  A worker object \<open>{ process, busy, callback }\<close> is named by its process; \<open>cp_busy\<close> and
  \<open>cp_callback\<close> are its fields (\<open>callback\<close> is \<open>undefined\<close> until the first task).
  A queue entry \<open>{ task, callback }\<close> is a \<open>task\<close> whose \<open>tid\<close> names the callback.
  \<open>cp_sent\<close> logs every \<open>worker.process.send(task)\<close> as (worker, task), \<open>cp_called\<close>
  every call of a callback, \<open>cp_killed\<close> the processes that \<open>kill()\<close> was called on.
\<close>

record cp_pool =
  cp_size :: nat
  cp_workers :: "nat list"
  cp_busy :: "nat \<Rightarrow> bool"
  cp_callback :: "nat \<Rightarrow> nat option"
  cp_queue :: "task list"
  cp_sent :: "(nat \<times> nat) list"
  cp_called :: "(nat \<times> outcome) list"
  cp_killed :: "nat set"
  cp_nextPid :: nat
  cp_nextTask :: nat

definition cp_createWorker :: "cp_pool \<Rightarrow> cp_pool" where
  "cp_createWorker s =
     (let w = cp_nextPid s
      in s\<lparr>cp_workers := cp_workers s @ [w],
           cp_busy := (cp_busy s)(w := False),
           cp_callback := (cp_callback s)(w := None),
           cp_nextPid := Suc w\<rparr>)"

fun cp_createWorkers :: "nat \<Rightarrow> cp_pool \<Rightarrow> cp_pool" where
  "cp_createWorkers 0 s = s"
| "cp_createWorkers (Suc i) s = cp_createWorkers i (cp_createWorker s)"

definition cp_new :: "nat \<Rightarrow> cp_pool" where
  "cp_new n =
     cp_createWorkers n
       \<lparr>cp_size = n, cp_workers = [], cp_busy = (\<lambda>_. False), cp_callback = (\<lambda>_. None),
        cp_queue = [], cp_sent = [], cp_called = [], cp_killed = {},
        cp_nextPid = 0, cp_nextTask = 0\<rparr>"

text \<open>The three lines that hand a task to a worker, in \<open>runTask\<close> and in \<open>processQueue\<close>.\<close>

definition cp_send :: "cp_pool \<Rightarrow> nat \<Rightarrow> task \<Rightarrow> cp_pool" where
  "cp_send s w t =
     s\<lparr>cp_busy := (cp_busy s)(w := True),
       cp_callback := (cp_callback s)(w := Some (tid t)),
       cp_sent := cp_sent s @ [(w, tid t)]\<rparr>"

definition cp_runTask :: "cp_pool \<Rightarrow> nat \<Rightarrow> cp_pool" where
  "cp_runTask s d =
     (let t = \<lparr>tid = cp_nextTask s, data = d\<rparr>;
          s1 = s\<lparr>cp_nextTask := Suc (cp_nextTask s)\<rparr>
      in case find (\<lambda>w. \<not> cp_busy s1 w) (cp_workers s1) of
           Some w \<Rightarrow> cp_send s1 w t
         | None \<Rightarrow> s1\<lparr>cp_queue := cp_queue s1 @ [t]\<rparr>)"

definition cp_processQueue :: "cp_pool \<Rightarrow> cp_pool" where
  "cp_processQueue s =
     (if length (cp_queue s) = 0 then s
      else case find (\<lambda>w. \<not> cp_busy s w) (cp_workers s) of
             None \<Rightarrow> s
           | Some w \<Rightarrow>
               (case shift (cp_queue s) of
                  None \<Rightarrow> s
                | Some (t, q) \<Rightarrow> cp_send (s\<lparr>cp_queue := q\<rparr>) w t))"

text \<open>
  What the callback is called with: \<open>new Error(msg.error)\<close> when \<open>msg.error\<close> is truthy,
  \<open>(null, msg.result)\<close> otherwise.
\<close>

definition cp_reply :: "cp_msg \<Rightarrow> outcome" where
  "cp_reply m =
     (if truthy (msg_error m)
      then (case msg_error m of Some e \<Rightarrow> Rejected e | None \<Rightarrow> Resolved (msg_result m))
      else Resolved (msg_result m))"

text \<open>
  The \<open>'message'\<close> handler. Calling \<open>worker.callback\<close> while it is \<open>undefined\<close> throws a
  TypeError, after \<open>worker.busy = false\<close>.
\<close>

definition cp_onMessage :: "cp_pool \<Rightarrow> nat \<Rightarrow> cp_msg \<Rightarrow> cp_pool handled" where
  "cp_onMessage s w m =
     (let s1 = s\<lparr>cp_busy := (cp_busy s)(w := False)\<rparr>
      in case cp_callback s1 w of
           None \<Rightarrow> TypeError s1
         | Some c \<Rightarrow>
             Returned (cp_processQueue
               (s1\<lparr>cp_called := cp_called s1 @ [(c, cp_reply m)]\<rparr>)))"

text \<open>
  The \<open>'exit'\<close> handler, in its two halves: \<open>indexOf\<close> and \<open>splice(index, 1)\<close>, then
  \<open>createWorker()\<close>.
\<close>

definition cp_removeWorker :: "cp_pool \<Rightarrow> nat \<Rightarrow> cp_pool" where
  "cp_removeWorker s w =
     (let index = indexOf (cp_workers s) w
      in s\<lparr>cp_workers := splice_js index 1 (cp_workers s)\<rparr>)"

definition cp_onExit :: "cp_pool \<Rightarrow> nat \<Rightarrow> cp_pool" where
  "cp_onExit s w = cp_createWorker (cp_removeWorker s w)"

text \<open>\<open>destroy()\<close>: \<open>w.process.kill()\<close> for each worker.\<close>

definition cp_destroy :: "cp_pool \<Rightarrow> cp_pool" where
  "cp_destroy s = fold (\<lambda>w st. st\<lparr>cp_killed := insert w (cp_killed st)\<rparr>) (cp_workers s) s"

text \<open>
  What can happen to a pool: a call of \<open>runTask\<close> or \<open>destroy\<close>, or an event of a
  process that \<open>createWorker\<close> forked. The \<open>'message'\<close> handler does not look at whether
  the worker is busy, was killed or is still in \<open>this.workers\<close>, so a \<open>'message'\<close> of any
  forked process is handled, whenever it comes. A process emits \<open>'exit'\<close> once, and its
  handler removes it from \<open>this.workers\<close>: the processes in \<open>cp_workers\<close> are the ones
  that have not exited.
\<close>

datatype cp_event =
  CP_runTask nat | CP_message nat cp_msg | CP_exit nat | CP_destroy

fun cp_step :: "cp_pool \<Rightarrow> cp_event \<Rightarrow> cp_pool" where
  "cp_step s (CP_runTask d) = cp_runTask s d"
| "cp_step s (CP_message w m) =
     (if w < cp_nextPid s then after (cp_onMessage s w m) else s)"
| "cp_step s (CP_exit w) = (if w \<in> set (cp_workers s) then cp_onExit s w else s)"
| "cp_step s CP_destroy = cp_destroy s"

definition cp_run :: "cp_pool \<Rightarrow> cp_event list \<Rightarrow> cp_pool" where
  "cp_run s evs = foldl cp_step s evs"

section \<open>The master of cluster-demo.js\<close>

text \<open>
  The \<open>Map\<close> from pid to \<open>{ worker, requests, startTime }\<close>; \<open>cluster.fork()\<close> returns
  a worker with a new pid, and \<open>Date.now()\<close> is an input.
\<close>

record cl_info =
  cl_requests :: nat
  cl_startTime :: nat

record cl_master =
  cl_workers :: "nat \<Rightarrow> cl_info option"
  cl_nextPid :: nat

definition cl_fork :: "cl_master \<Rightarrow> nat \<Rightarrow> cl_master" where
  "cl_fork s now =
     (let pid = cl_nextPid s
      in s\<lparr>cl_workers := (cl_workers s)(pid \<mapsto> \<lparr>cl_requests = 0, cl_startTime = now\<rparr>),
           cl_nextPid := Suc pid\<rparr>)"

fun cl_forks :: "nat \<Rightarrow> nat \<Rightarrow> cl_master \<Rightarrow> cl_master" where
  "cl_forks 0 now s = s"
| "cl_forks (Suc i) now s = cl_forks i now (cl_fork s now)"

definition cl_new :: "nat \<Rightarrow> nat \<Rightarrow> cl_master" where
  "cl_new numCPUs now = cl_forks numCPUs now \<lparr>cl_workers = Map.empty, cl_nextPid = 0\<rparr>"

text \<open>\<open>cluster.on('exit')\<close>: delete the pid, fork, register the new worker.\<close>

definition cl_onExit :: "cl_master \<Rightarrow> nat \<Rightarrow> nat \<Rightarrow> cl_master" where
  "cl_onExit s pid now = cl_fork (s\<lparr>cl_workers := (cl_workers s)(pid := None)\<rparr>) now"

section \<open>Invariants and auxiliary notions\<close>

text \<open>
  The order of submission is the order of the task identities: \<open>runTask\<close> and \<open>execute\<close>
  name the task they create by the counter \<open>nextTask\<close> and increment it, and nothing else
  changes the counter.
\<close>

fun tp_isSubmit :: "tp_event \<Rightarrow> bool" where
  "tp_isSubmit (TP_runTask d) = True"
| "tp_isSubmit _ = False"

fun sp_isSubmit :: "sp_event \<Rightarrow> bool" where
  "sp_isSubmit (SP_execute d) = True"
| "sp_isSubmit _ = False"

text \<open>The calls of the pool's own methods, as opposed to the events of its workers.\<close>

fun tp_isCall :: "tp_event \<Rightarrow> bool" where
  "tp_isCall (TP_runTask d) = True"
| "tp_isCall TP_close = True"
| "tp_isCall _ = False"

text \<open>The Workers of the slot pool that were created and have not emitted \<open>'exit'\<close>.\<close>

definition sp_live :: "sp_pool \<Rightarrow> nat list" where
  "sp_live s = filter (\<lambda>w. w \<notin> sp_exited s) (map fst (sp_started s))"

text \<open>Only Workers that were created have handlers or have exited.\<close>

definition sp_wf :: "sp_pool \<Rightarrow> bool" where
  "sp_wf s \<longleftrightarrow>
     sp_exited s \<subseteq> {..<sp_nextWorker s} \<and>
     (\<forall>w. sp_handlers s w \<noteq> None \<longrightarrow> w < sp_nextWorker s)"

text \<open>The free workers are workers of the pool.\<close>

definition tp_sub :: "tp_pool \<Rightarrow> bool" where
  "tp_sub s \<longleftrightarrow> set (tp_freeWorkers s) \<subseteq> set (tp_workers s)"

text \<open>A worker that is out of use: it is not free and it holds no task.\<close>

definition tp_retired :: "tp_pool \<Rightarrow> nat \<Rightarrow> bool" where
  "tp_retired s w \<longleftrightarrow> w \<notin> set (tp_freeWorkers s) \<and> tp_currentTask s w = None"

text \<open>
  The tasks handed to a worker so far, followed by the queue, are all tasks in the order
  of submission; and a task waits in the queue only while no worker is free.
\<close>

definition tp_fifo :: "tp_pool \<Rightarrow> bool" where
  "tp_fifo s \<longleftrightarrow>
     map snd (tp_posted s) @ map tid (tp_queue s) = [0..<tp_nextTask s] \<and>
     (tp_queue s \<noteq> [] \<longrightarrow> tp_freeWorkers s = [])"

definition sp_fifo :: "sp_pool \<Rightarrow> bool" where
  "sp_fifo s \<longleftrightarrow>
     map snd (sp_started s) @ map tid (sp_queue s) = [0..<sp_nextTask s] \<and>
     (sp_queue s \<noteq> [] \<longrightarrow> (\<forall>sl\<in>set (sp_workers s). busy sl))"

text \<open>
  Only posted tasks are settled, a free worker holds no task, the task a worker holds is
  posted and not settled, and no two workers hold the same task.
\<close>

definition tp_inv :: "tp_pool \<Rightarrow> bool" where
  "tp_inv s \<longleftrightarrow>
     distinct (map fst (tp_settled s)) \<and>
     fst ` set (tp_settled s) \<subseteq> snd ` set (tp_posted s) \<and>
     distinct (tp_freeWorkers s) \<and>
     (\<forall>w\<in>set (tp_freeWorkers s). tp_currentTask s w = None) \<and>
     (\<forall>w t. tp_currentTask s w = Some t \<longrightarrow>
        tid t \<in> snd ` set (tp_posted s) \<and> tid t \<notin> fst ` set (tp_settled s)) \<and>
     (\<forall>w w' t t'. tp_currentTask s w = Some t \<longrightarrow> tp_currentTask s w' = Some t' \<longrightarrow>
        tid t = tid t' \<longrightarrow> w = w')"

text \<open>The worker array of the child\_process pool holds \<open>size\<close> distinct processes.\<close>

definition cp_wf :: "cp_pool \<Rightarrow> bool" where
  "cp_wf s \<longleftrightarrow>
     distinct (cp_workers s) \<and> set (cp_workers s) \<subseteq> {..<cp_nextPid s} \<and>
     cp_killed s \<subseteq> {..<cp_nextPid s} \<and> length (cp_workers s) = cp_size s"

definition cp_ids :: "cp_pool \<Rightarrow> nat list" where
  "cp_ids s = map snd (cp_sent s) @ map tid (cp_queue s)"

definition cp_once :: "cp_pool \<Rightarrow> bool" where
  "cp_once s \<longleftrightarrow> distinct (cp_ids s) \<and> set (cp_ids s) \<subseteq> {..<cp_nextTask s}"

text \<open>
  \<open>destroy()\<close> followed by the \<open>'exit'\<close> of every process it killed, in the order of the
  array.
\<close>

definition cp_destroyed :: "cp_pool \<Rightarrow> cp_pool" where
  "cp_destroyed s = cp_run (cp_destroy s) (map CP_exit (cp_workers s))"

section \<open>Auxiliary lemmas\<close>

subsection \<open>Array primitives\<close>

lemma pop_None [simp]: "pop xs = None \<longleftrightarrow> xs = []"
  by (simp add: pop_def)

lemma pop_Some [simp]: "pop xs = Some (w, rest) \<longleftrightarrow> xs = rest @ [w]"
  by (cases xs rule: rev_cases) (auto simp: pop_def)

lemma shift_Some [simp]: "shift xs = Some (x, r) \<longleftrightarrow> xs = x # r"
  by (cases xs) (auto simp: shift_def)

lemma pop_Nil [simp]: "pop [] = None"
  by (simp add: pop_def)

lemma pop_snoc [simp]: "pop (xs @ [x]) = Some (x, xs)"
  by (simp add: pop_def)

lemma shift_Nil [simp]: "shift [] = None"
  by (simp add: shift_def)

lemma shift_Cons [simp]: "shift (x # xs) = Some (x, xs)"
  by (simp add: shift_def)

lemma shift_None [simp]: "shift xs = None \<longleftrightarrow> xs = []"
  by (cases xs) (auto simp: shift_def)

subsection \<open>The worker\_threads pool: first in, first out\<close>

text \<open>\<open>close()\<close> adds the workers of the pool to the terminated ones and changes nothing else.\<close>

lemma tp_close_eq: "tp_close s = s\<lparr>tp_dead := tp_dead s \<union> set (tp_workers s)\<rparr>"
proof -
  have "fold (\<lambda>w st. st\<lparr>tp_dead := insert w (tp_dead st)\<rparr>) ws s
        = s\<lparr>tp_dead := tp_dead s \<union> set ws\<rparr>" for ws
    by (induction ws arbitrary: s) auto
  then show ?thesis by (simp add: tp_close_def)
qed

text \<open>The constructor establishes \<open>tp_fifo\<close> and every step keeps it.\<close>

lemma tp_fifo_addWorkers:
  "tp_queue s = [] \<Longrightarrow> tp_posted s = [] \<Longrightarrow> tp_nextTask s = 0 \<Longrightarrow>
   tp_fifo (tp_addWorkers n s)"
  by (induction n arbitrary: s) (auto simp: tp_fifo_def tp_addWorker_def Let_def)

lemma tp_fifo_new: "tp_fifo (tp_new n)"
  by (simp add: tp_new_def tp_fifo_addWorkers)

lemma tp_fifo_runTask: "tp_fifo s \<Longrightarrow> tp_fifo (tp_runTask s d)"
  by (auto simp: tp_fifo_def tp_runTask_def tp_runTaskOnWorker_def Let_def split: option.splits)

lemma tp_fifo_runNext: "map snd (tp_posted s) @ map tid (tp_queue s) = [0..<tp_nextTask s] \<Longrightarrow>
   (tp_queue s \<noteq> [] \<longrightarrow> length (tp_freeWorkers s) \<le> 1) \<Longrightarrow> tp_fifo (tp_runNext s)"
  by (auto simp: tp_fifo_def tp_runNext_def tp_runTaskOnWorker_def Let_def split: option.splits)

lemma tp_fifo_step: "tp_fifo s \<Longrightarrow> tp_fifo (tp_step s ev)"
proof (cases ev)
  case (TP_runTask d)
  assume "tp_fifo s" then show ?thesis using TP_runTask by (simp add: tp_fifo_runTask)
next
  case (TP_message w r)
  assume a: "tp_fifo s"
  show ?thesis
  proof (cases "tp_currentTask s w")
    case None
    then show ?thesis using TP_message a by (simp add: tp_onMessage_def)
  next
    case (Some t)
    have "tp_fifo (tp_runNext (s\<lparr>tp_settled := tp_settled s @ [(tid t, Resolved r)],
               tp_currentTask := (tp_currentTask s)(w := None),
               tp_freeWorkers := tp_freeWorkers s @ [w]\<rparr>))"
      using a by (intro tp_fifo_runNext) (auto simp: tp_fifo_def)
    then show ?thesis using TP_message Some a by (simp add: tp_onMessage_def)
  qed
next
  case (TP_error w e)
  assume "tp_fifo s" then show ?thesis using TP_error
    by (auto simp: tp_fifo_def tp_onError_def split: option.splits)
next
  case TP_close
  assume "tp_fifo s" then show ?thesis using TP_close
    by (auto simp: tp_fifo_def tp_close_eq)
qed

lemma tp_fifo_run: "tp_fifo s \<Longrightarrow> tp_fifo (tp_run s evs)"
  unfolding tp_run_def by (induction evs arbitrary: s) (auto simp: tp_fifo_step)

lemma tp_fifo_reach: "map snd (tp_posted (tp_run (tp_new n) evs)) @ map tid (tp_queue (tp_run (tp_new n) evs))
   = [0..<tp_nextTask (tp_run (tp_new n) evs)]"
  using tp_fifo_run[OF tp_fifo_new, of n evs] by (simp add: tp_fifo_def)

subsection \<open>The worker\_threads pool: settlements\<close>

lemma tp_invI:
  assumes "distinct (map fst (tp_settled s))"
    and "fst ` set (tp_settled s) \<subseteq> snd ` set (tp_posted s)"
    and "distinct (tp_freeWorkers s)"
    and "\<And>w. w \<in> set (tp_freeWorkers s) \<Longrightarrow> tp_currentTask s w = None"
    and "\<And>w t. tp_currentTask s w = Some t \<Longrightarrow> tid t \<in> snd ` set (tp_posted s)"
    and "\<And>w t. tp_currentTask s w = Some t \<Longrightarrow> tid t \<notin> fst ` set (tp_settled s)"
    and "\<And>w w' t t'. tp_currentTask s w = Some t \<Longrightarrow> tp_currentTask s w' = Some t' \<Longrightarrow>
        tid t = tid t' \<Longrightarrow> w = w'"
  shows "tp_inv s"
  unfolding tp_inv_def
proof (intro conjI allI impI ballI)
  show "w = w'" if "tp_currentTask s w = Some t" "tp_currentTask s w' = Some t'" "tid t = tid t'"
    for w w' t t' using that by (rule assms(7))
qed (use assms in blast)+

lemma tp_invD:
  assumes "tp_inv s"
  shows "distinct (map fst (tp_settled s))"
    and "fst ` set (tp_settled s) \<subseteq> snd ` set (tp_posted s)"
    and "distinct (tp_freeWorkers s)"
    and "\<And>w. w \<in> set (tp_freeWorkers s) \<Longrightarrow> tp_currentTask s w = None"
    and "\<And>w t. tp_currentTask s w = Some t \<Longrightarrow> tid t \<in> snd ` set (tp_posted s)"
    and "\<And>w t. tp_currentTask s w = Some t \<Longrightarrow> tid t \<notin> fst ` set (tp_settled s)"
    and "\<And>w w' t t'. tp_currentTask s w = Some t \<Longrightarrow> tp_currentTask s w' = Some t' \<Longrightarrow>
        tid t = tid t' \<Longrightarrow> w = w'"
  using assms unfolding tp_inv_def by blast+

lemma tp_inv_runTaskOnWorker:
  assumes "tp_inv s" "w \<notin> set (tp_freeWorkers s)" "tid t \<notin> snd ` set (tp_posted s)"
  shows "tp_inv (tp_runTaskOnWorker s w t)"
proof -
  have a: "distinct (map fst (tp_settled s))"
    and b: "fst ` set (tp_settled s) \<subseteq> snd ` set (tp_posted s)"
    and c: "distinct (tp_freeWorkers s)"
    and d: "\<forall>w\<in>set (tp_freeWorkers s). tp_currentTask s w = None"
    and e: "\<And>w t. tp_currentTask s w = Some t \<Longrightarrow>
        tid t \<in> snd ` set (tp_posted s) \<and> tid t \<notin> fst ` set (tp_settled s)"
    and f: "\<And>w w' t t'. tp_currentTask s w = Some t \<Longrightarrow> tp_currentTask s w' = Some t' \<Longrightarrow>
        tid t = tid t' \<Longrightarrow> w = w'"
    using assms(1) unfolding tp_inv_def by blast+
  let ?s = "tp_runTaskOnWorker s w t"
  have p: "tp_posted ?s = tp_posted s @ [(w, tid t)]" "tp_settled ?s = tp_settled s"
     "tp_freeWorkers ?s = tp_freeWorkers s" "tp_currentTask ?s = (tp_currentTask s)(w := Some t)"
    by (simp_all add: tp_runTaskOnWorker_def)
  have 1: "fst ` set (tp_settled ?s) \<subseteq> snd ` set (tp_posted ?s)"
    using b by (auto simp: p)
  have 2: "\<forall>w\<in>set (tp_freeWorkers ?s). tp_currentTask ?s w = None"
    using d assms(2) by (auto simp: p)
  have nt: "tid t \<notin> fst ` set (tp_settled s)" using b assms(3) by blast
  have 3: "tid t' \<in> snd ` set (tp_posted ?s) \<and> tid t' \<notin> fst ` set (tp_settled ?s)"
    if "tp_currentTask ?s w' = Some t'" for w' t'
  proof (cases "w' = w")
    case True
    then have "t' = t" using that by (simp add: p)
    then show ?thesis using nt by (simp add: p)
  next
    case False
    then have "tp_currentTask s w' = Some t'" using that by (simp add: p)
    then show ?thesis using e by (simp add: p)
  qed
  have 4: "w1 = w2" if "tp_currentTask ?s w1 = Some t1" "tp_currentTask ?s w2 = Some t2"
      "tid t1 = tid t2" for w1 w2 t1 t2
  proof -
    have h: "tid x \<noteq> tid t" if "tp_currentTask s v = Some x" for v x
      using e[OF that] assms(3) by metis
    show ?thesis
    proof (cases "w1 = w")
      case True
      then have t1: "t1 = t" using that(1) by (simp add: p)
      show ?thesis
      proof (cases "w2 = w")
        case True then show ?thesis using \<open>w1 = w\<close> by simp
      next
        case False
        then have "tp_currentTask s w2 = Some t2" using that(2) by (simp add: p)
        then show ?thesis using h that(3) t1 by auto
      qed
    next
      case False
      then have c1: "tp_currentTask s w1 = Some t1" using that(1) by (simp add: p)
      show ?thesis
      proof (cases "w2 = w")
        case True
        then have "t2 = t" using that(2) by (simp add: p)
        then show ?thesis using h[OF c1] that(3) by auto
      next
        case False
        then have "tp_currentTask s w2 = Some t2" using that(2) by (simp add: p)
        then show ?thesis using f[OF c1 _ that(3)] by simp
      qed
    qed
  qed
  show ?thesis
    unfolding tp_inv_def
  proof (intro conjI allI impI)
    show "distinct (map fst (tp_settled ?s))" using a by (simp add: p)
    show "fst ` set (tp_settled ?s) \<subseteq> snd ` set (tp_posted ?s)" by (rule 1)
    show "distinct (tp_freeWorkers ?s)" using c by (simp add: p)
    show "\<forall>w\<in>set (tp_freeWorkers ?s). tp_currentTask ?s w = None" by (rule 2)
    show "tid t' \<in> snd ` set (tp_posted ?s)" if "tp_currentTask ?s w' = Some t'" for w' t'
      using 3[OF that] by simp
    show "tid t' \<notin> fst ` set (tp_settled ?s)" if "tp_currentTask ?s w' = Some t'" for w' t'
      using 3[OF that] by simp
    show "w1 = w2" if "tp_currentTask ?s w1 = Some t1" "tp_currentTask ?s w2 = Some t2"
      "tid t1 = tid t2" for w1 w2 t1 t2
      using that by (rule 4)
  qed
qed

text \<open>The constructor establishes \<open>tp_inv\<close> and every step keeps it.\<close>

lemma tp_inv_addWorkers:
  "tp_inv s \<Longrightarrow> set (tp_freeWorkers s) \<subseteq> {..<tp_nextWorker s} \<Longrightarrow> tp_inv (tp_addWorkers n s)"
proof (induction n arbitrary: s)
  case 0 then show ?case by simp
next
  case (Suc n)
  have "tp_inv (tp_addWorker s)"
    using Suc.prems by (auto simp: tp_inv_def tp_addWorker_def Let_def)
  moreover have "set (tp_freeWorkers (tp_addWorker s)) \<subseteq> {..<tp_nextWorker (tp_addWorker s)}"
    using Suc.prems by (auto simp: tp_addWorker_def Let_def)
  ultimately show ?case using Suc.IH by simp
qed

lemma tp_inv_new: "tp_inv (tp_new n)"
  unfolding tp_new_def by (rule tp_inv_addWorkers) (auto simp: tp_inv_def)

lemma tp_inv_free_butlast:
  assumes "tp_inv s" "tp_freeWorkers s = rest @ [w]"
  shows "tp_inv (s\<lparr>tp_freeWorkers := rest\<rparr>)" "w \<notin> set rest"
  using assms unfolding tp_inv_def by auto

lemma tp_fifo_fresh:
  assumes "tp_fifo s"
  shows "tp_nextTask s \<notin> snd ` set (tp_posted s)"
    and "tp_queue s = t # q \<Longrightarrow> tid t \<notin> snd ` set (tp_posted s)"
proof -
  have eq: "map snd (tp_posted s) @ map tid (tp_queue s) = [0..<tp_nextTask s]"
    using assms by (simp add: tp_fifo_def)
  have "set (map snd (tp_posted s)) \<subseteq> set [0..<tp_nextTask s]"
    by (metis eq set_append Un_upper1)
  then show "tp_nextTask s \<notin> snd ` set (tp_posted s)" by auto
  have "distinct (map snd (tp_posted s) @ map tid (tp_queue s))"
    by (simp add: eq)
  then show "tp_queue s = t # q \<Longrightarrow> tid t \<notin> snd ` set (tp_posted s)" by auto
qed

lemma tp_inv_runTask:
  assumes "tp_inv s" "tp_fifo s"
  shows "tp_inv (tp_runTask s d)"
proof (cases "tp_freeWorkers s" rule: rev_cases)
  case Nil
  then have "tp_runTask s d = s\<lparr>tp_nextTask := Suc (tp_nextTask s),
      tp_queue := tp_queue s @ [\<lparr>tid = tp_nextTask s, data = d\<rparr>]\<rparr>"
    by (simp add: tp_runTask_def Let_def)
  then show ?thesis using assms(1) by (simp add: tp_inv_def)
next
  case (snoc rest w)
  let ?t = "\<lparr>tid = tp_nextTask s, data = d\<rparr>"
  let ?s1 = "s\<lparr>tp_nextTask := Suc (tp_nextTask s), tp_freeWorkers := rest\<rparr>"
  have r: "tp_runTask s d = tp_runTaskOnWorker ?s1 w ?t"
    using snoc by (simp add: tp_runTask_def Let_def)
  have "tp_inv (s\<lparr>tp_freeWorkers := rest\<rparr>)" "w \<notin> set rest"
    using tp_inv_free_butlast[OF assms(1) snoc] by auto
  then have "tp_inv ?s1" by (simp add: tp_inv_def)
  then have "tp_inv (tp_runTaskOnWorker ?s1 w ?t)"
    using \<open>w \<notin> set rest\<close> tp_fifo_fresh(1)[OF assms(2)]
    by (intro tp_inv_runTaskOnWorker) auto
  then show ?thesis by (simp add: r)
qed

lemma tp_inv_runNext:
  assumes "tp_inv s" "map snd (tp_posted s) @ map tid (tp_queue s) = [0..<tp_nextTask s]"
  shows "tp_inv (tp_runNext s)"
proof (cases "tp_queue s")
  case Nil then show ?thesis using assms by (simp add: tp_runNext_def)
next
  case (Cons t q)
  show ?thesis
  proof (cases "tp_freeWorkers s" rule: rev_cases)
    case Nil then show ?thesis using assms Cons by (simp add: tp_runNext_def)
  next
    case (snoc rest w)
    let ?s1 = "s\<lparr>tp_freeWorkers := rest, tp_queue := q\<rparr>"
    have r: "tp_runNext s = tp_runTaskOnWorker ?s1 w t"
      using snoc Cons by (simp add: tp_runNext_def)
    have "tp_inv (s\<lparr>tp_freeWorkers := rest\<rparr>)" "w \<notin> set rest"
      using tp_inv_free_butlast[OF assms(1) snoc] by auto
    then have "tp_inv ?s1" by (simp add: tp_inv_def)
    moreover have "distinct (map snd (tp_posted s) @ map tid (tp_queue s))"
      by (simp add: assms(2))
    then have "tid t \<notin> snd ` set (tp_posted s)" using Cons by auto
    ultimately have "tp_inv (tp_runTaskOnWorker ?s1 w t)"
      using \<open>w \<notin> set rest\<close> by (intro tp_inv_runTaskOnWorker) auto
    then show ?thesis by (simp add: r)
  qed
qed

lemma tp_inv_settle:
  assumes "tp_inv s" "tp_currentTask s w = Some t"
  shows "tp_inv (s\<lparr>tp_settled := tp_settled s @ [(tid t, x)],
                   tp_currentTask := (tp_currentTask s)(w := None)\<rparr>)"
    (is "tp_inv ?s")
proof (rule tp_invI)
  note D = tp_invD[OF assms(1)]
  show "distinct (map fst (tp_settled ?s))"
    using D(1) D(6)[OF assms(2)] by simp
  show "fst ` set (tp_settled ?s) \<subseteq> snd ` set (tp_posted ?s)"
    using D(2) D(5)[OF assms(2)] by simp
  show "distinct (tp_freeWorkers ?s)" using D(3) by simp
  show "tp_currentTask ?s v = None" if "v \<in> set (tp_freeWorkers ?s)" for v
    using D(4)[of v] that by simp
  show "tid u \<in> snd ` set (tp_posted ?s)" if "tp_currentTask ?s v = Some u" for v u
    using D(5)[of v u] that by (simp split: if_splits)
  show "tid u \<notin> fst ` set (tp_settled ?s)" if "tp_currentTask ?s v = Some u" for v u
  proof -
    have v: "v \<noteq> w" "tp_currentTask s v = Some u" using that by (simp_all split: if_splits)
    have "tid u \<noteq> tid t" using D(7)[OF v(2) assms(2)] v(1) by blast
    then show ?thesis using D(6)[OF v(2)] by simp
  qed
  show "v = v'" if "tp_currentTask ?s v = Some u" "tp_currentTask ?s v' = Some u'" "tid u = tid u'"
    for v v' u u'
  proof -
    have "tp_currentTask s v = Some u" "tp_currentTask s v' = Some u'"
      using that by (simp_all split: if_splits)
    then show ?thesis using D(7) that(3) by blast
  qed
qed

lemma tp_inv_free_push:
  assumes "tp_inv s" "tp_currentTask s w = None" "w \<notin> set (tp_freeWorkers s)"
  shows "tp_inv (s\<lparr>tp_freeWorkers := tp_freeWorkers s @ [w]\<rparr>)"
  using assms unfolding tp_inv_def by simp

lemma tp_inv_onMessage:
  assumes "tp_inv s" "tp_fifo s"
  shows "tp_inv (after (tp_onMessage s w r))"
proof (cases "tp_currentTask s w")
  case None
  then show ?thesis using assms(1) by (simp add: tp_onMessage_def)
next
  case (Some t)
  let ?s1 = "s\<lparr>tp_settled := tp_settled s @ [(tid t, Resolved r)],
                   tp_currentTask := (tp_currentTask s)(w := None)\<rparr>"
  let ?s2 = "?s1\<lparr>tp_freeWorkers := tp_freeWorkers ?s1 @ [w]\<rparr>"
  have wf: "w \<notin> set (tp_freeWorkers s)" using assms(1) Some by (auto simp: tp_inv_def)
  have "tp_inv ?s1" by (rule tp_inv_settle[OF assms(1) Some])
  then have "tp_inv ?s2" using wf by (intro tp_inv_free_push) auto
  moreover have "map snd (tp_posted ?s2) @ map tid (tp_queue ?s2) = [0..<tp_nextTask ?s2]"
    using assms(2) by (simp add: tp_fifo_def)
  ultimately have "tp_inv (tp_runNext ?s2)" by (rule tp_inv_runNext)
  moreover have "after (tp_onMessage s w r) = tp_runNext ?s2"
    using Some by (simp add: tp_onMessage_def)
  ultimately show ?thesis by simp
qed

lemma tp_inv_onError:
  assumes "tp_inv s"
  shows "tp_inv (tp_onError s w e)"
proof (cases "tp_currentTask s w")
  case None then show ?thesis using assms by (simp add: tp_onError_def)
next
  case (Some t)
  then show ?thesis using tp_inv_settle[OF assms Some] by (simp add: tp_onError_def)
qed

lemma tp_inv_dead: "tp_inv (s\<lparr>tp_dead := D\<rparr>) = tp_inv s"
  by (simp add: tp_inv_def)

lemma tp_inv_step:
  assumes "tp_inv s" "tp_fifo s"
  shows "tp_inv (tp_step s ev)"
proof (cases ev)
  case (TP_runTask d) then show ?thesis using assms by (simp add: tp_inv_runTask)
next
  case (TP_message w r)
  then show ?thesis using assms(1) tp_inv_onMessage[OF assms] by simp
next
  case (TP_error w e)
  then show ?thesis using tp_inv_onError[OF assms(1)] assms(1) by simp
next
  case TP_close then show ?thesis using assms(1) by (simp add: tp_close_eq tp_inv_dead)
qed

lemma tp_inv_run: "tp_inv s \<Longrightarrow> tp_fifo s \<Longrightarrow> tp_inv (tp_run s evs)"
  unfolding tp_run_def
  by (induction evs arbitrary: s) (auto simp: tp_inv_step tp_fifo_step)

lemma tp_inv_reach: "tp_inv (tp_run (tp_new n) evs)"
  by (simp add: tp_inv_run tp_inv_new tp_fifo_new)

subsection \<open>The worker\_threads pool: runs\<close>

lemma tp_run_Nil [simp]: "tp_run s [] = s"
  by (simp add: tp_run_def)

lemma tp_run_Cons [simp]: "tp_run s (ev # evs) = tp_run (tp_step s ev) evs"
  by (simp add: tp_run_def)

lemma tp_workers_runNext [simp]: "tp_workers (tp_runNext s) = tp_workers s"
  and tp_dead_runNext [simp]: "tp_dead (tp_runNext s) = tp_dead s"
  and tp_settled_runNext [simp]: "tp_settled (tp_runNext s) = tp_settled s"
  by (auto simp: tp_runNext_def tp_runTaskOnWorker_def split: option.splits)

lemma tp_workers_runTask [simp]: "tp_workers (tp_runTask s d) = tp_workers s"
  and tp_dead_runTask [simp]: "tp_dead (tp_runTask s d) = tp_dead s"
  and tp_settled_runTask [simp]: "tp_settled (tp_runTask s d) = tp_settled s"
  by (auto simp: tp_runTask_def tp_runTaskOnWorker_def Let_def split: option.splits)

lemma tp_workers_onMessage [simp]: "tp_workers (after (tp_onMessage s w r)) = tp_workers s"
  by (cases "tp_currentTask s w") (simp_all add: tp_onMessage_def)

lemma tp_dead_onMessage [simp]: "tp_dead (after (tp_onMessage s w r)) = tp_dead s"
  by (cases "tp_currentTask s w") (simp_all add: tp_onMessage_def)

lemma tp_workers_onError [simp]: "tp_workers (tp_onError s w e) = tp_workers s"
  and tp_dead_onError [simp]: "tp_dead (tp_onError s w e) = tp_dead s"
  and tp_nextTask_onError [simp]: "tp_nextTask (tp_onError s w e) = tp_nextTask s"
  and tp_queue_onError [simp]: "tp_queue (tp_onError s w e) = tp_queue s"
  and tp_posted_onError [simp]: "tp_posted (tp_onError s w e) = tp_posted s"
  and tp_free_onError [simp]: "tp_freeWorkers (tp_onError s w e) = tp_freeWorkers s"
  by (cases "tp_currentTask s w"; simp add: tp_onError_def)+

lemma tp_workers_step [simp]: "tp_workers (tp_step s ev) = tp_workers s"
  by (cases ev) (auto simp: tp_close_eq)

lemma tp_workers_run [simp]: "tp_workers (tp_run s evs) = tp_workers s"
  by (induction evs arbitrary: s) auto

lemma tp_settled_distinct: "distinct (map fst (tp_settled (tp_run (tp_new n) evs)))"
  using tp_inv_reach[of n evs] by (simp add: tp_inv_def)

lemma tp_posted_distinct: "distinct (map snd (tp_posted (tp_run (tp_new n) evs)))"
proof -
  have "distinct (map snd (tp_posted (tp_run (tp_new n) evs)) @ map tid (tp_queue (tp_run (tp_new n) evs)))"
    by (simp add: tp_fifo_reach)
  then show ?thesis by simp
qed

lemma tp_nextTask_runNext [simp]: "tp_nextTask (tp_runNext s) = tp_nextTask s"
  by (auto simp: tp_runNext_def tp_runTaskOnWorker_def split: option.splits)

lemma tp_nextTask_onMessage [simp]: "tp_nextTask (after (tp_onMessage s w r)) = tp_nextTask s"
  by (cases "tp_currentTask s w") (simp_all add: tp_onMessage_def)

lemma tp_nextTask_step:
  "tp_nextTask (tp_step s ev) = tp_nextTask s + (if tp_isSubmit ev then 1 else 0)"
  by (cases ev) (auto simp: tp_runTask_def tp_runTaskOnWorker_def tp_close_eq Let_def
        split: option.splits)

lemma tp_nextTask_run:
  "tp_nextTask (tp_run s evs) = tp_nextTask s + length (filter tp_isSubmit evs)"
  by (induction evs arbitrary: s) (auto simp: tp_nextTask_step)

lemma tp_nextTask_addWorkers [simp]: "tp_nextTask (tp_addWorkers n s) = tp_nextTask s"
  by (induction n arbitrary: s) (auto simp: tp_addWorker_def Let_def)

lemma tp_nextTask_reach: "tp_nextTask (tp_run (tp_new n) evs) = length (filter tp_isSubmit evs)"
  by (simp add: tp_nextTask_run tp_new_def)


lemma tp_runTask_close: "tp_runTask (tp_close s) d = tp_close (tp_runTask s d)"
  by (cases "tp_freeWorkers s" rule: rev_cases)
     (simp_all add: tp_close_eq tp_runTask_def tp_runTaskOnWorker_def Let_def)

lemma tp_runTask_queue:
  "tp_queue (tp_runTask s d) =
     (if tp_freeWorkers s = [] then tp_queue s @ [\<lparr>tid = tp_nextTask s, data = d\<rparr>] else tp_queue s)"
  by (cases "tp_freeWorkers s" rule: rev_cases)
     (simp_all add: tp_runTask_def tp_runTaskOnWorker_def Let_def)

lemma tp_error_busy:
  assumes "w \<in> set (tp_workers s)" "tp_currentTask s w = Some t"
  shows "tp_settled (tp_step s (TP_error w e)) = tp_settled s @ [(tid t, Rejected e)]"
    and "tp_queue (tp_step s (TP_error w e)) = tp_queue s"
    and "tp_posted (tp_step s (TP_error w e)) = tp_posted s"
    and "tp_freeWorkers (tp_step s (TP_error w e)) = tp_freeWorkers s"
    and "tp_currentTask (tp_step s (TP_error w e)) w = None"
  using assms by (simp_all add: tp_onError_def)

text \<open>The calls of \<open>runTask\<close> and \<open>close\<close> settle nothing.\<close>

lemma tp_calls_settle_nothing:
  "list_all tp_isCall evs \<Longrightarrow> tp_settled (tp_run s evs) = tp_settled s"
proof (induction evs arbitrary: s)
  case Nil show ?case by simp
next
  case (Cons ev evs)
  have "tp_settled (tp_step s ev) = tp_settled s"
    using Cons.prems by (cases ev) (simp_all add: tp_close_eq)
  then show ?case using Cons by simp
qed

text \<open>\<open>close()\<close> commutes with every step: it changes nothing that a step looks at.\<close>

lemma tp_onMessage_dead:
  "after (tp_onMessage (s\<lparr>tp_dead := D\<rparr>) w r) = (after (tp_onMessage s w r))\<lparr>tp_dead := D\<rparr>"
  by (cases "tp_currentTask s w"; cases "tp_queue s")
     (simp_all add: tp_onMessage_def tp_runNext_def tp_runTaskOnWorker_def)

lemma tp_onError_dead:
  "tp_onError (s\<lparr>tp_dead := D\<rparr>) w e = (tp_onError s w e)\<lparr>tp_dead := D\<rparr>"
  by (cases "tp_currentTask s w") (simp_all add: tp_onError_def)

lemma tp_step_close: "tp_step (tp_close s) ev = tp_close (tp_step s ev)"
proof (cases ev)
  case (TP_runTask d) then show ?thesis by (simp add: tp_runTask_close)
next
  case (TP_message w r)
  then show ?thesis by (simp add: tp_close_eq tp_onMessage_dead)
next
  case (TP_error w e)
  then show ?thesis by (simp add: tp_close_eq tp_onError_dead)
next
  case TP_close then show ?thesis by simp
qed

lemma tp_run_close: "tp_run (tp_close s) evs = tp_close (tp_run s evs)"
  by (induction evs arbitrary: s) (simp_all add: tp_step_close)

text \<open>The free workers stay workers of the pool.\<close>

lemma tp_sub_runNext: "tp_sub s \<Longrightarrow> tp_sub (tp_runNext s)"
  by (cases "tp_queue s"; cases "tp_freeWorkers s" rule: rev_cases)
     (auto simp: tp_sub_def tp_runNext_def tp_runTaskOnWorker_def)

lemma tp_sub_step: "tp_sub s \<Longrightarrow> tp_sub (tp_step s ev)"
proof (cases ev)
  case (TP_runTask d)
  assume "tp_sub s" then show ?thesis using TP_runTask
    by (cases "tp_freeWorkers s" rule: rev_cases)
       (auto simp: tp_sub_def tp_runTask_def tp_runTaskOnWorker_def Let_def)
next
  case (TP_message w r)
  assume a: "tp_sub s"
  show ?thesis
  proof (cases "w \<in> set (tp_workers s) \<and> tp_currentTask s w \<noteq> None")
    case True
    then obtain t where t: "tp_currentTask s w = Some t" by auto
    have "tp_sub (tp_runNext (s\<lparr>tp_settled := tp_settled s @ [(tid t, Resolved r)],
               tp_currentTask := (tp_currentTask s)(w := None),
               tp_freeWorkers := tp_freeWorkers s @ [w]\<rparr>))"
      using a True by (intro tp_sub_runNext) (auto simp: tp_sub_def)
    then show ?thesis using TP_message True t by (simp add: tp_onMessage_def)
  next
    case False
    then show ?thesis using TP_message a by (auto simp: tp_onMessage_def)
  qed
next
  case (TP_error w e)
  assume "tp_sub s" then show ?thesis using TP_error by (auto simp: tp_sub_def)
next
  case TP_close
  assume "tp_sub s" then show ?thesis using TP_close by (simp add: tp_sub_def tp_close_eq)
qed

lemma tp_sub_reach: "tp_sub (tp_run (tp_new n) evs)"
proof -
  have a: "tp_sub s \<Longrightarrow> tp_sub (tp_addWorker s)" for s
    by (auto simp: tp_sub_def tp_addWorker_def Let_def)
  have "tp_sub s \<Longrightarrow> tp_sub (tp_addWorkers k s)" for k s
    by (induction k arbitrary: s) (simp_all add: a)
  then have "tp_sub (tp_new n)" by (simp add: tp_new_def tp_sub_def)
  moreover have "tp_sub s \<Longrightarrow> tp_sub (tp_run s evs)" for s
    by (induction evs arbitrary: s) (simp_all add: tp_sub_step)
  ultimately show ?thesis by blast
qed

text \<open>
  A worker that is not free and holds no task stays so: only a free worker is handed a
  task, and only the reply of a worker that holds a task makes it free.
\<close>

lemma tp_retired_runNext: "tp_retired s w \<Longrightarrow> tp_retired (tp_runNext s) w"
  by (cases "tp_queue s"; cases "tp_freeWorkers s" rule: rev_cases)
     (auto simp: tp_retired_def tp_runNext_def tp_runTaskOnWorker_def)

lemma tp_retired_step:
  assumes "tp_retired s w"
  shows "tp_retired (tp_step s ev) w"
proof (cases ev)
  case (TP_runTask d)
  then show ?thesis using assms
    by (cases "tp_freeWorkers s" rule: rev_cases)
       (auto simp: tp_retired_def tp_runTask_def tp_runTaskOnWorker_def Let_def)
next
  case (TP_message v r)
  show ?thesis
  proof (cases "tp_currentTask s v")
    case None
    then show ?thesis using TP_message assms by (simp add: tp_onMessage_def)
  next
    case (Some t)
    then have "v \<noteq> w" using assms by (auto simp: tp_retired_def)
    then have "tp_retired (s\<lparr>tp_settled := tp_settled s @ [(tid t, Resolved r)],
               tp_currentTask := (tp_currentTask s)(v := None),
               tp_freeWorkers := tp_freeWorkers s @ [v]\<rparr>) w"
      using assms by (simp add: tp_retired_def)
    then show ?thesis using TP_message Some assms
      by (simp add: tp_onMessage_def tp_retired_runNext)
  qed
next
  case (TP_error v e)
  then show ?thesis using assms
    by (cases "tp_currentTask s v") (auto simp: tp_retired_def tp_onError_def)
next
  case TP_close then show ?thesis using assms by (simp add: tp_retired_def tp_close_eq)
qed

lemma tp_retired_run: "tp_retired s w \<Longrightarrow> tp_retired (tp_run s evs) w"
  by (induction evs arbitrary: s) (simp_all add: tp_retired_step)

text \<open>Once every worker is out of use nothing is settled and nothing leaves the queue.\<close>

lemma tp_all_retired_step:
  assumes "tp_freeWorkers s = []" "\<forall>w\<in>set (tp_workers s). tp_currentTask s w = None"
  shows "tp_settled (tp_step s ev) = tp_settled s"
    and "prefix (tp_queue s) (tp_queue (tp_step s ev))"
    and "tp_freeWorkers (tp_step s ev) = []"
    and "\<forall>w\<in>set (tp_workers (tp_step s ev)). tp_currentTask (tp_step s ev) w = None"
  using assms
  by (cases ev; auto simp: tp_runTask_def tp_onMessage_def tp_onError_def tp_close_eq Let_def)+

lemma tp_all_retired_run:
  assumes "tp_freeWorkers s = []" "\<forall>w\<in>set (tp_workers s). tp_currentTask s w = None"
  shows "tp_settled (tp_run s evs) = tp_settled s \<and> prefix (tp_queue s) (tp_queue (tp_run s evs))"
  using assms
proof (induction evs arbitrary: s)
  case Nil show ?case by simp
next
  case (Cons ev evs)
  note st = tp_all_retired_step[OF Cons.prems, of ev]
  have "tp_settled (tp_run (tp_step s ev) evs) = tp_settled (tp_step s ev) \<and>
      prefix (tp_queue (tp_step s ev)) (tp_queue (tp_run (tp_step s ev) evs))"
    using st(3,4) by (rule Cons.IH)
  then show ?case using st(1,2) by (auto intro: prefix_order.trans)
qed

subsection \<open>The slot pool\<close>

lemma findIndex_None: "findIndex P xs = None \<longleftrightarrow> (\<forall>x\<in>set xs. \<not> P x)"
  by (induction xs) auto

lemma findIndex_Some: "findIndex P xs = Some i \<Longrightarrow> i < length xs \<and> P (xs ! i)"
  by (induction xs arbitrary: i) (auto split: if_splits)

lemma sp_run_Nil [simp]: "sp_run s [] = s"
  by (simp add: sp_run_def)

lemma sp_run_Cons [simp]: "sp_run s (ev # evs) = sp_run (sp_step s ev) evs"
  by (simp add: sp_run_def)

lemma sp_fifo_new: "sp_fifo (sp_new n)"
  by (simp add: sp_fifo_def sp_new_def)

lemma sp_fifo_execute:
  assumes "sp_fifo s"
  shows "sp_fifo (sp_execute s d)"
proof (cases "findIndex (\<lambda>sl. \<not> busy sl) (sp_workers s)")
  case None
  then have "\<forall>sl\<in>set (sp_workers s). busy sl" by (simp add: findIndex_None)
  then show ?thesis using assms None
    by (simp add: sp_fifo_def sp_execute_def Let_def)
next
  case (Some i)
  then have "i < length (sp_workers s)" "\<not> busy (sp_workers s ! i)"
    using findIndex_Some[OF Some] by auto
  then have "sp_queue s = []" using assms by (auto simp: sp_fifo_def)
  then show ?thesis using assms Some
    by (simp add: sp_fifo_def sp_execute_def sp_runTask_def Let_def)
qed

lemma set_update_busy:
  assumes "\<forall>sl\<in>set xs. busy sl" "busy y"
  shows "\<forall>sl\<in>set (xs[i := y]). busy sl"
  using assms set_update_subset_insert[of xs i y] by auto

lemma sp_fifo_finishTask:
  assumes "sp_fifo s"
  shows "sp_fifo (sp_finishTask s i)"
proof (cases "sp_queue s")
  case Nil
  then show ?thesis using assms by (simp add: sp_fifo_def sp_finishTask_def Let_def)
next
  case (Cons t q)
  then have b: "\<forall>sl\<in>set (sp_workers s). busy sl" using assms by (simp add: sp_fifo_def)
  have "\<forall>sl\<in>set ((sp_workers s)[i := \<lparr>worker = None, busy = False\<rparr>,
                     i := \<lparr>worker = Some (sp_nextWorker s), busy = True\<rparr>]). busy sl"
    using set_update_busy[OF b, of "\<lparr>worker = Some (sp_nextWorker s), busy = True\<rparr>" i]
    by simp
  then show ?thesis using assms Cons
    by (simp add: sp_fifo_def sp_finishTask_def sp_runTask_def Let_def)
qed

lemma sp_fifo_settled: "sp_fifo (s\<lparr>sp_settled := x\<rparr>) = sp_fifo s"
  and sp_fifo_dead: "sp_fifo (s\<lparr>sp_dead := D\<rparr>) = sp_fifo s"
  and sp_fifo_exited: "sp_fifo (s\<lparr>sp_exited := D\<rparr>) = sp_fifo s"
  by (simp_all add: sp_fifo_def)

text \<open>Iterations of \<open>terminate()\<close> only add the Workers held by the slots they visit to the
  terminated ones, so their order and their repetition do not matter.\<close>

lemma sp_terminate_fold:
  "fold (\<lambda>i st. sp_terminateSlot st i) js s =
     s\<lparr>sp_dead := sp_dead s \<union> {w. \<exists>i\<in>set js. worker (sp_workers s ! i) = Some w}\<rparr>"
proof (induction js arbitrary: s)
  case Nil show ?case by simp
next
  case (Cons j js)
  show ?case
  proof (cases "worker (sp_workers s ! j)")
    case None
    then have "sp_terminateSlot s j = s" by (simp add: sp_terminateSlot_def)
    moreover have "{w. \<exists>i\<in>set (j # js). worker (sp_workers s ! i) = Some w}
        = {w. \<exists>i\<in>set js. worker (sp_workers s ! i) = Some w}" using None by auto
    ultimately show ?thesis using Cons[of s] by simp
  next
    case (Some v)
    then have t: "sp_terminateSlot s j = s\<lparr>sp_dead := insert v (sp_dead s)\<rparr>"
      by (simp add: sp_terminateSlot_def)
    have "insert v (sp_dead s) \<union> {w. \<exists>i\<in>set js. worker (sp_workers s ! i) = Some w}
        = sp_dead s \<union> {w. \<exists>i\<in>set (j # js). worker (sp_workers s ! i) = Some w}"
      using Some by auto
    then show ?thesis using Cons[of "s\<lparr>sp_dead := insert v (sp_dead s)\<rparr>"] t by simp
  qed
qed

lemma sp_terminate_eq:
  "sp_terminate s =
     s\<lparr>sp_dead := sp_dead s \<union> {w. \<exists>i\<in>{0..<length (sp_workers s)}. worker (sp_workers s ! i) = Some w}\<rparr>"
  by (simp add: sp_terminate_def sp_terminate_fold)

lemma sp_fifo_step: "sp_fifo s \<Longrightarrow> sp_fifo (sp_step s ev)"
proof (cases ev)
  case (SP_execute d)
  assume "sp_fifo s" then show ?thesis using SP_execute by (simp add: sp_fifo_execute)
next
  case (SP_message w r)
  assume "sp_fifo s" then show ?thesis using SP_message
    by (cases "sp_handlers s w")
       (auto simp: sp_onMessage_def sp_fifo_finishTask sp_fifo_settled)
next
  case (SP_error w e)
  assume "sp_fifo s" then show ?thesis using SP_error
    by (cases "sp_handlers s w")
       (auto simp: sp_onError_def sp_fifo_finishTask sp_fifo_settled)
next
  case (SP_exit w c)
  assume "sp_fifo s" then show ?thesis using SP_exit
    by (auto simp: sp_onExit_def Let_def sp_fifo_settled sp_fifo_exited split: option.splits)
next
  case SP_terminate
  assume "sp_fifo s" then show ?thesis using SP_terminate
    by (simp add: sp_terminate_eq sp_fifo_dead)
qed

lemma sp_fifo_run: "sp_fifo s \<Longrightarrow> sp_fifo (sp_run s evs)"
  by (induction evs arbitrary: s) (auto simp: sp_fifo_step)

lemma sp_fifo_reach:
  "map snd (sp_started (sp_run (sp_new n) evs)) @ map tid (sp_queue (sp_run (sp_new n) evs))
     = [0..<sp_nextTask (sp_run (sp_new n) evs)]"
  using sp_fifo_run[OF sp_fifo_new, of n evs] by (simp add: sp_fifo_def)

lemma sp_nextTask_finishTask [simp]: "sp_nextTask (sp_finishTask s i) = sp_nextTask s"
  by (cases "sp_queue s") (simp_all add: sp_finishTask_def sp_runTask_def Let_def)

lemma sp_nextTask_step:
  "sp_nextTask (sp_step s ev) = sp_nextTask s + (if sp_isSubmit ev then 1 else 0)"
  by (cases ev)
     (auto simp: sp_execute_def sp_runTask_def sp_onMessage_def sp_onError_def sp_onExit_def
        sp_terminate_eq Let_def split: option.splits)

lemma sp_nextTask_run:
  "sp_nextTask (sp_run s evs) = sp_nextTask s + length (filter sp_isSubmit evs)"
  by (induction evs arbitrary: s) (auto simp: sp_nextTask_step)

lemma sp_nextTask_reach: "sp_nextTask (sp_run (sp_new n) evs) = length (filter sp_isSubmit evs)"
  by (simp add: sp_nextTask_run sp_new_def)

lemma sp_length_finishTask [simp]: "length (sp_workers (sp_finishTask s i)) = length (sp_workers s)"
  by (cases "sp_queue s") (simp_all add: sp_finishTask_def sp_runTask_def Let_def)

lemma sp_length_step [simp]: "length (sp_workers (sp_step s ev)) = length (sp_workers s)"
  by (cases ev)
     (auto simp: sp_execute_def sp_runTask_def sp_onMessage_def sp_onError_def sp_onExit_def
        sp_terminate_eq Let_def split: option.splits)

lemma sp_length_run [simp]: "length (sp_workers (sp_run s evs)) = length (sp_workers s)"
  by (induction evs arbitrary: s) auto

lemma sp_length_reach: "length (sp_workers (sp_run (sp_new n) evs)) = n"
  by (simp add: sp_new_def)



lemma sp_execute_dead: "sp_execute (s\<lparr>sp_dead := D\<rparr>) d = (sp_execute s d)\<lparr>sp_dead := D\<rparr>"
  by (cases "findIndex (\<lambda>sl. \<not> busy sl) (sp_workers s)")
     (simp_all add: sp_execute_def sp_runTask_def Let_def)

lemma sp_execute_terminate:
  "sp_execute (sp_terminate s) d = (sp_execute s d)\<lparr>sp_dead := sp_dead (sp_terminate s)\<rparr>"
  by (simp add: sp_terminate_eq sp_execute_dead)

lemma sp_execute_queue:
  "sp_queue (sp_execute s d) =
     (if findIndex (\<lambda>sl. \<not> busy sl) (sp_workers s) = None
      then sp_queue s @ [\<lparr>tid = sp_nextTask s, data = d\<rparr>] else sp_queue s)"
  by (cases "findIndex (\<lambda>sl. \<not> busy sl) (sp_workers s)")
     (simp_all add: sp_execute_def sp_runTask_def Let_def)

text \<open>The log of settlements only grows, and only the handlers of the Workers add to it.\<close>

lemma sp_settled_finishTask [simp]: "sp_settled (sp_finishTask s i) = sp_settled s"
  by (cases "sp_queue s") (simp_all add: sp_finishTask_def sp_runTask_def Let_def)

lemma sp_settled_terminate: "sp_settled (sp_terminate s) = sp_settled s"
  by (simp add: sp_terminate_eq)

lemma sp_settled_step: "prefix (sp_settled s) (sp_settled (sp_step s ev))"
proof (cases ev)
  case (SP_execute d)
  then show ?thesis
    by (cases "findIndex (\<lambda>sl. \<not> busy sl) (sp_workers s)")
       (simp_all add: sp_execute_def sp_runTask_def Let_def)
next
  case (SP_message w r)
  then show ?thesis by (cases "sp_handlers s w") (auto simp: sp_onMessage_def)
next
  case (SP_error w e)
  then show ?thesis by (cases "sp_handlers s w") (auto simp: sp_onError_def)
next
  case (SP_exit w c)
  then show ?thesis by (cases "sp_handlers s w") (auto simp: sp_onExit_def Let_def)
next
  case SP_terminate then show ?thesis by (simp add: sp_settled_terminate)
qed

lemma sp_settled_run: "prefix (sp_settled s) (sp_settled (sp_run s evs))"
proof (induction evs arbitrary: s)
  case Nil show ?case by simp
next
  case (Cons ev evs)
  show ?case using sp_settled_step[of s ev] Cons[of "sp_step s ev"]
    by (auto intro: prefix_order.trans)
qed

lemma sp_exit_rejects:
  assumes "sp_handlers s w = Some (i, t)" "w \<notin> sp_exited s" "code \<noteq> 0"
  shows "sp_settled (sp_step s (SP_exit w code)) = sp_settled s @ [(tid t, RejectedExit code)]"
  using assms by (simp add: sp_onExit_def Let_def)

text \<open>A reply or an error of a Worker starts the head of the queue in its slot.\<close>

lemma sp_finishTask_starts:
  assumes "sp_queue s = t # q"
  shows "sp_started (sp_finishTask s i) = sp_started s @ [(sp_nextWorker s, tid t)]"
    and "sp_queue (sp_finishTask s i) = q"
    and "sp_exited (sp_finishTask s i) = sp_exited s"
  using assms by (simp_all add: sp_finishTask_def sp_runTask_def Let_def)

lemma sp_message_starts:
  assumes "sp_handlers s w = Some (i, t0)" "sp_queue s = t # q"
  shows "sp_started (sp_step s (SP_message w r)) = sp_started s @ [(sp_nextWorker s, tid t)]"
    and "sp_queue (sp_step s (SP_message w r)) = q"
    and "sp_exited (sp_step s (SP_message w r)) = sp_exited s"
  using assms
    sp_finishTask_starts[of "s\<lparr>sp_settled := sp_settled s @ [(tid t0, Resolved r)]\<rparr>" t q i]
  by (simp_all add: sp_onMessage_def)

lemma sp_error_starts:
  assumes "sp_handlers s w = Some (i, t0)" "sp_queue s = t # q"
  shows "sp_started (sp_step s (SP_error w e)) = sp_started s @ [(sp_nextWorker s, tid t)]"
    and "sp_queue (sp_step s (SP_error w e)) = q"
  using assms
    sp_finishTask_starts[of "s\<lparr>sp_settled := sp_settled s @ [(tid t0, Rejected e)]\<rparr>" t q i]
  by (simp_all add: sp_onError_def)

lemma sp_execute_starts:
  assumes "findIndex (\<lambda>sl. \<not> busy sl) (sp_workers s) = Some i"
  shows "sp_started (sp_execute s d) = sp_started s @ [(sp_nextWorker s, sp_nextTask s)]"
  using assms by (simp add: sp_execute_def sp_runTask_def Let_def)

text \<open>Only Workers that were created have handlers or have exited.\<close>

lemma sp_wf_runTask: "sp_wf s \<Longrightarrow> sp_wf (sp_runTask s i t)"
  by (auto simp: sp_wf_def sp_runTask_def Let_def less_Suc_eq)

lemma sp_wf_finishTask: "sp_wf s \<Longrightarrow> sp_wf (sp_finishTask s i)"
proof (cases "sp_queue s")
  case Nil
  assume "sp_wf s" then show ?thesis using Nil by (simp add: sp_wf_def sp_finishTask_def Let_def)
next
  case (Cons t q)
  assume "sp_wf s"
  then have "sp_wf (s\<lparr>sp_workers := (sp_workers s)[i := \<lparr>worker = None, busy = False\<rparr>],
      sp_queue := q\<rparr>)" by (simp add: sp_wf_def)
  then have "sp_wf (sp_runTask (s\<lparr>sp_workers := (sp_workers s)[i := \<lparr>worker = None, busy = False\<rparr>],
      sp_queue := q\<rparr>) i t)" by (rule sp_wf_runTask)
  then show ?thesis using Cons by (simp add: sp_finishTask_def Let_def)
qed

lemma sp_wf_settled: "sp_wf (s\<lparr>sp_settled := x\<rparr>) = sp_wf s"
  and sp_wf_dead: "sp_wf (s\<lparr>sp_dead := D\<rparr>) = sp_wf s"
  by (simp_all add: sp_wf_def)

lemma sp_wf_step: "sp_wf s \<Longrightarrow> sp_wf (sp_step s ev)"
proof (cases ev)
  case (SP_execute d)
  assume a: "sp_wf s"
  then have "sp_wf (s\<lparr>sp_nextTask := Suc (sp_nextTask s)\<rparr>)" by (simp add: sp_wf_def)
  then show ?thesis using SP_execute a
    by (cases "findIndex (\<lambda>sl. \<not> busy sl) (sp_workers s)")
       (simp_all add: sp_execute_def Let_def sp_wf_runTask, simp add: sp_wf_def)
next
  case (SP_message w r)
  assume "sp_wf s" then show ?thesis using SP_message
    by (cases "sp_handlers s w") (auto simp: sp_onMessage_def sp_wf_finishTask sp_wf_settled)
next
  case (SP_error w e)
  assume "sp_wf s" then show ?thesis using SP_error
    by (cases "sp_handlers s w") (auto simp: sp_onError_def sp_wf_finishTask sp_wf_settled)
next
  case (SP_exit w c)
  assume a: "sp_wf s"
  have f: "sp_handlers (sp_onExit s w c) = sp_handlers s"
    "sp_nextWorker (sp_onExit s w c) = sp_nextWorker s"
    "sp_exited (sp_onExit s w c) = sp_exited s"
    by (auto simp: sp_onExit_def split: option.splits)
  show ?thesis
  proof (cases "sp_handlers s w \<noteq> None \<and> w \<notin> sp_exited s")
    case True
    then have "w < sp_nextWorker s" using a by (simp add: sp_wf_def)
    then have "insert w (sp_exited s) \<subseteq> {..<sp_nextWorker s}"
      using a by (simp add: sp_wf_def)
    then show ?thesis using a True SP_exit f by (simp add: sp_wf_def Let_def)
  next
    case False
    then show ?thesis using a SP_exit by auto
  qed
next
  case SP_terminate
  assume "sp_wf s" then show ?thesis using SP_terminate
    by (simp add: sp_terminate_eq sp_wf_dead)
qed

lemma sp_wf_reach: "sp_wf (sp_run (sp_new n) evs)"
proof -
  have "sp_wf (sp_new n)" by (simp add: sp_wf_def sp_new_def)
  moreover have "sp_wf s \<Longrightarrow> sp_wf (sp_run s evs)" for s
    by (induction evs arbitrary: s) (simp_all add: sp_wf_step)
  ultimately show ?thesis by blast
qed

lemma sp_live_message:
  assumes "sp_wf s" "sp_handlers s w = Some (i, t0)" "sp_queue s = t # q"
  shows "sp_live (sp_step s (SP_message w r)) = sp_live s @ [sp_nextWorker s]"
proof -
  have "sp_nextWorker s \<notin> sp_exited s" using assms(1) by (auto simp: sp_wf_def)
  then show ?thesis
    using sp_message_starts(1,3)[OF assms(2,3), of r] by (simp add: sp_live_def)
qed

subsection \<open>The child\_process pool\<close>

text \<open>For an element of the array, \<open>indexOf\<close> followed by \<open>splice(index, 1)\<close> removes its first
  occurrence; for anything else \<open>indexOf\<close> is \<open>-1\<close> and \<open>splice(-1, 1)\<close> removes the last
  element.\<close>

lemma indexOf_absent: "x \<notin> set xs \<Longrightarrow> indexOf xs x = - 1"
  by (induction xs) (auto simp: Let_def)

lemma indexOf_present: "x \<in> set xs \<Longrightarrow> 0 \<le> indexOf xs x \<and> indexOf xs x < int (length xs)"
  by (induction xs) (auto simp: Let_def)

lemma splice_Cons_Suc:
  "0 \<le> i \<Longrightarrow> splice_js (i + 1) 1 (y # ys) = y # splice_js i 1 ys"
  by (simp add: splice_js_def Let_def min_def nat_add_distrib)

lemma splice_indexOf:
  "x \<in> set xs \<Longrightarrow> splice_js (indexOf xs x) 1 xs = remove1 x xs"
proof (induction xs)
  case Nil then show ?case by simp
next
  case (Cons y ys)
  show ?case
  proof (cases "y = x")
    case True then show ?thesis by (simp add: splice_js_def)
  next
    case False
    then have m: "x \<in> set ys" using Cons.prems by simp
    then have nn: "0 \<le> indexOf ys x" by (simp add: indexOf_present)
    then have "indexOf (y # ys) x = indexOf ys x + 1" using False by (simp add: Let_def)
    then have "splice_js (indexOf (y # ys) x) 1 (y # ys) = splice_js (indexOf ys x + 1) 1 (y # ys)"
      by (rule arg_cong)
    also have "\<dots> = y # splice_js (indexOf ys x) 1 ys" by (rule splice_Cons_Suc[OF nn])
    also have "\<dots> = y # remove1 x ys" by (simp only: Cons.IH[OF m])
    also have "\<dots> = remove1 x (y # ys)" using False by simp
    finally show ?thesis .
  qed
qed

lemma splice_indexOf_Suc:
  "x \<in> set xs \<Longrightarrow> splice_js (indexOf xs x) (Suc 0) xs = remove1 x xs"
  using splice_indexOf[of x xs] by simp

lemma splice_last: "splice_js (- 1) 1 xs = butlast xs"
  by (cases xs rule: rev_cases) (auto simp: splice_js_def Let_def max_def)

lemma cp_run_Nil [simp]: "cp_run s [] = s"
  by (simp add: cp_run_def)

lemma cp_run_Cons [simp]: "cp_run s (ev # evs) = cp_run (cp_step s ev) evs"
  by (simp add: cp_run_def)

lemma cp_run_append: "cp_run s (xs @ ys) = cp_run (cp_run s xs) ys"
  by (simp add: cp_run_def)

lemma cp_destroy_eq: "cp_destroy s = s\<lparr>cp_killed := cp_killed s \<union> set (cp_workers s)\<rparr>"
proof -
  have "fold (\<lambda>w st. st\<lparr>cp_killed := insert w (cp_killed st)\<rparr>) ws s
        = s\<lparr>cp_killed := cp_killed s \<union> set ws\<rparr>" for ws
    by (induction ws arbitrary: s) auto
  then show ?thesis by (simp add: cp_destroy_def)
qed

lemma cp_onExit_workers:
  "w \<in> set (cp_workers s) \<Longrightarrow>
     cp_workers (cp_onExit s w) = remove1 w (cp_workers s) @ [cp_nextPid s]"
  by (simp add: cp_onExit_def cp_removeWorker_def cp_createWorker_def Let_def splice_indexOf_Suc)

lemma cp_onExit_fields [simp]:
  "cp_nextPid (cp_onExit s w) = Suc (cp_nextPid s)"
  "cp_size (cp_onExit s w) = cp_size s"
  "cp_queue (cp_onExit s w) = cp_queue s"
  "cp_sent (cp_onExit s w) = cp_sent s"
  "cp_called (cp_onExit s w) = cp_called s"
  "cp_nextTask (cp_onExit s w) = cp_nextTask s"
  "cp_killed (cp_onExit s w) = cp_killed s"
  "cp_busy (cp_onExit s w) (cp_nextPid s) = False"
  by (simp_all add: cp_onExit_def cp_removeWorker_def cp_createWorker_def Let_def)

lemma cp_processQueue_fields [simp]:
  "cp_workers (cp_processQueue s) = cp_workers s"
  "cp_nextPid (cp_processQueue s) = cp_nextPid s"
  "cp_size (cp_processQueue s) = cp_size s"
  "cp_nextTask (cp_processQueue s) = cp_nextTask s"
  "cp_killed (cp_processQueue s) = cp_killed s"
  "cp_called (cp_processQueue s) = cp_called s"
  by (auto simp: cp_processQueue_def cp_send_def split: option.splits)

lemma cp_runTask_fields [simp]:
  "cp_workers (cp_runTask s d) = cp_workers s"
  "cp_nextPid (cp_runTask s d) = cp_nextPid s"
  "cp_size (cp_runTask s d) = cp_size s"
  "cp_nextTask (cp_runTask s d) = Suc (cp_nextTask s)"
  "cp_killed (cp_runTask s d) = cp_killed s"
  "cp_called (cp_runTask s d) = cp_called s"
  by (auto simp: cp_runTask_def cp_send_def Let_def split: option.splits)

lemma cp_onMessage_fields [simp]:
  "cp_workers (after (cp_onMessage s w m)) = cp_workers s"
  "cp_nextPid (after (cp_onMessage s w m)) = cp_nextPid s"
  "cp_size (after (cp_onMessage s w m)) = cp_size s"
  "cp_nextTask (after (cp_onMessage s w m)) = cp_nextTask s"
  "cp_killed (after (cp_onMessage s w m)) = cp_killed s"
  by (cases "cp_callback s w"; simp add: cp_onMessage_def Let_def)+

lemma cp_wf_createWorkers:
  "distinct (cp_workers s) \<Longrightarrow> set (cp_workers s) \<subseteq> {..<cp_nextPid s} \<Longrightarrow>
   distinct (cp_workers (cp_createWorkers n s)) \<and>
   set (cp_workers (cp_createWorkers n s)) \<subseteq> {..<cp_nextPid (cp_createWorkers n s)} \<and>
   length (cp_workers (cp_createWorkers n s)) = length (cp_workers s) + n \<and>
   cp_size (cp_createWorkers n s) = cp_size s"
proof (induction n arbitrary: s)
  case 0 then show ?case by simp
next
  case (Suc n)
  have "distinct (cp_workers (cp_createWorker s))"
    "set (cp_workers (cp_createWorker s)) \<subseteq> {..<cp_nextPid (cp_createWorker s)}"
    using Suc.prems by (auto simp: cp_createWorker_def Let_def)
  from Suc.IH[OF this] show ?case by (simp add: cp_createWorker_def Let_def)
qed

lemma cp_killed_createWorkers [simp]: "cp_killed (cp_createWorkers n s) = cp_killed s"
  by (induction n arbitrary: s) (auto simp: cp_createWorker_def Let_def)

lemma cp_wf_new: "cp_wf (cp_new n)"
  using cp_wf_createWorkers[of "\<lparr>cp_size = n, cp_workers = [], cp_busy = (\<lambda>_. False),
        cp_callback = (\<lambda>_. None), cp_queue = [], cp_sent = [], cp_called = [], cp_killed = {},
        cp_nextPid = 0, cp_nextTask = 0\<rparr>" n]
  by (simp add: cp_wf_def cp_new_def)

lemma cp_wf_onExit:
  assumes "cp_wf s" "w \<in> set (cp_workers s)"
  shows "cp_wf (cp_onExit s w)"
proof -
  have "length (remove1 w (cp_workers s)) = length (cp_workers s) - 1"
    using assms(2) by (simp add: length_remove1)
  moreover have "length (cp_workers s) \<ge> 1" using assms(2) by (cases "cp_workers s") auto
  ultimately show ?thesis using assms
    by (auto simp: cp_wf_def cp_onExit_workers dest: notin_set_remove1)
qed

lemma cp_wf_step: "cp_wf s \<Longrightarrow> cp_wf (cp_step s ev)"
proof (cases ev)
  case (CP_runTask d)
  assume "cp_wf s" then show ?thesis using CP_runTask by (simp add: cp_wf_def)
next
  case (CP_message w m)
  assume "cp_wf s" then show ?thesis using CP_message by (simp add: cp_wf_def)
next
  case (CP_exit w)
  assume "cp_wf s" then show ?thesis using CP_exit by (simp add: cp_wf_onExit)
next
  case CP_destroy
  assume "cp_wf s" then show ?thesis using CP_destroy by (simp add: cp_wf_def cp_destroy_eq)
qed

lemma cp_wf_run: "cp_wf s \<Longrightarrow> cp_wf (cp_run s evs)"
  by (induction evs arbitrary: s) (auto simp: cp_wf_step)

lemma cp_wf_reach: "cp_wf (cp_run (cp_new n) evs)"
  by (simp add: cp_wf_run cp_wf_new)

lemma cp_size_step [simp]: "cp_size (cp_step s ev) = cp_size s"
  by (cases ev) (auto simp: cp_destroy_eq)

lemma cp_size_run [simp]: "cp_size (cp_run s evs) = cp_size s"
  by (induction evs arbitrary: s) auto

lemma cp_size_createWorkers [simp]: "cp_size (cp_createWorkers n s) = cp_size s"
  by (induction n arbitrary: s) (auto simp: cp_createWorker_def Let_def)

lemma cp_size_new [simp]: "cp_size (cp_new n) = n"
  by (simp add: cp_new_def)

lemma cp_length_reach: "length (cp_workers (cp_run (cp_new n) evs)) = n"
  using cp_wf_reach[of n evs] by (simp add: cp_wf_def)

lemma cp_removeWorker_length:
  assumes "w \<in> set (cp_workers s)"
  shows "length (cp_workers (cp_removeWorker s w)) = length (cp_workers s) - 1"
  using assms by (simp add: cp_removeWorker_def Let_def splice_indexOf_Suc length_remove1)

text \<open>When the workers at the front of the array exit one after the other, each is replaced
  by a new process at the end of the array.\<close>

lemma cp_exits_respawn:
  assumes "cp_workers s = ws @ vs" "distinct (cp_workers s)" "set (cp_workers s) \<subseteq> {..<cp_nextPid s}"
  shows "cp_workers (cp_run s (map CP_exit ws)) = vs @ [cp_nextPid s ..< cp_nextPid s + length ws] \<and>
         cp_killed (cp_run s (map CP_exit ws)) = cp_killed s"
  using assms
proof (induction ws arbitrary: s vs)
  case Nil then show ?case by simp
next
  case (Cons w ws)
  let ?s = "cp_onExit s w"
  have w: "w \<in> set (cp_workers s)" using Cons.prems(1) by simp
  have r: "remove1 w (cp_workers s) = ws @ vs" using Cons.prems(1) by simp
  have 1: "cp_workers ?s = ws @ (vs @ [cp_nextPid s])"
    using cp_onExit_workers[OF w] r by simp
  have 2: "distinct (cp_workers ?s)"
    using Cons.prems 1 by auto
  have 3: "set (cp_workers ?s) \<subseteq> {..<cp_nextPid ?s}"
    using Cons.prems 1 by auto
  have "cp_workers (cp_run ?s (map CP_exit ws))
      = (vs @ [cp_nextPid s]) @ [cp_nextPid ?s ..< cp_nextPid ?s + length ws] \<and>
      cp_killed (cp_run ?s (map CP_exit ws)) = cp_killed ?s"
    by (rule Cons.IH[OF 1 2 3])
  moreover have "[cp_nextPid s ..< cp_nextPid s + length (w # ws)]
      = cp_nextPid s # [cp_nextPid ?s ..< cp_nextPid ?s + length ws]"
    by (simp add: upt_conv_Cons del: upt_Suc)
  ultimately show ?case using w by (simp del: upt_Suc)
qed

lemma cp_destroy_respawn:
  assumes "cp_wf s"
  shows "cp_workers (cp_run (cp_destroy s) (map CP_exit (cp_workers s)))
           = [cp_nextPid s ..< cp_nextPid s + cp_size s]"
    and "cp_killed (cp_run (cp_destroy s) (map CP_exit (cp_workers s))) = cp_killed s \<union> set (cp_workers s)"
proof -
  have "cp_workers (cp_destroy s) = cp_workers s @ []" by (simp add: cp_destroy_eq)
  moreover have "distinct (cp_workers (cp_destroy s))" "set (cp_workers (cp_destroy s)) \<subseteq> {..<cp_nextPid (cp_destroy s)}"
    using assms by (simp_all add: cp_destroy_eq cp_wf_def)
  ultimately have "cp_workers (cp_run (cp_destroy s) (map CP_exit (cp_workers s))) =
     [] @ [cp_nextPid (cp_destroy s) ..< cp_nextPid (cp_destroy s) + length (cp_workers s)] \<and>
         cp_killed (cp_run (cp_destroy s) (map CP_exit (cp_workers s))) = cp_killed (cp_destroy s)"
    by (rule cp_exits_respawn)
  then show "cp_workers (cp_run (cp_destroy s) (map CP_exit (cp_workers s)))
           = [cp_nextPid s ..< cp_nextPid s + cp_size s]"
    and "cp_killed (cp_run (cp_destroy s) (map CP_exit (cp_workers s))) = cp_killed s \<union> set (cp_workers s)"
    using assms by (simp_all add: cp_destroy_eq cp_wf_def)
qed

text \<open>The tasks sent to a worker, followed by the queue, never hold a task twice.\<close>

lemma cp_once_new: "cp_once (cp_new n)"
proof -
  have "cp_sent (cp_createWorkers n s) = cp_sent s \<and> cp_queue (cp_createWorkers n s) = cp_queue s
    \<and> cp_nextTask (cp_createWorkers n s) = cp_nextTask s" for s
    by (induction n arbitrary: s) (auto simp: cp_createWorker_def Let_def)
  then show ?thesis by (simp add: cp_once_def cp_ids_def cp_new_def)
qed

lemma cp_ids_processQueue [simp]: "cp_ids (cp_processQueue s) = cp_ids s"
  by (cases "cp_queue s")
     (auto simp: cp_ids_def cp_processQueue_def cp_send_def split: option.splits)

lemma cp_ids_runTask: "cp_ids (cp_runTask s d) = cp_ids s @ [cp_nextTask s] \<or>
    (\<exists>xs ys. cp_ids s = xs @ ys \<and> cp_ids (cp_runTask s d) = xs @ cp_nextTask s # ys)"
  by (cases "find (\<lambda>w. \<not> cp_busy s w) (cp_workers s)")
     (auto simp: cp_ids_def cp_runTask_def cp_send_def Let_def)

lemma cp_once_runTask:
  assumes "cp_once s" shows "cp_once (cp_runTask s d)"
proof -
  have n: "cp_nextTask s \<notin> set (cp_ids s)" using assms by (auto simp: cp_once_def)
  from cp_ids_runTask[of s d] show ?thesis
  proof
    assume "cp_ids (cp_runTask s d) = cp_ids s @ [cp_nextTask s]"
    then show ?thesis using assms n by (auto simp: cp_once_def)
  next
    assume "\<exists>xs ys. cp_ids s = xs @ ys \<and> cp_ids (cp_runTask s d) = xs @ cp_nextTask s # ys"
    then obtain xs ys where "cp_ids s = xs @ ys" "cp_ids (cp_runTask s d) = xs @ cp_nextTask s # ys"
      by blast
    then show ?thesis using assms n by (auto simp: cp_once_def)
  qed
qed

lemma cp_ids_onMessage [simp]: "cp_ids (after (cp_onMessage s w m)) = cp_ids s"
proof (cases "cp_callback s w")
  case None then show ?thesis by (simp add: cp_onMessage_def Let_def cp_ids_def)
next
  case (Some c)
  then have "cp_ids (after (cp_onMessage s w m)) = cp_ids (s\<lparr>cp_busy := (cp_busy s)(w := False),
        cp_called := cp_called s @ [(c, cp_reply m)]\<rparr>)"
    by (simp add: cp_onMessage_def Let_def)
  then show ?thesis by (simp add: cp_ids_def)
qed

lemma cp_once_step: "cp_once s \<Longrightarrow> cp_once (cp_step s ev)"
proof (cases ev)
  case (CP_runTask d)
  assume "cp_once s" then show ?thesis using CP_runTask by (simp add: cp_once_runTask)
next
  case (CP_message w m)
  assume "cp_once s" then show ?thesis using CP_message by (simp add: cp_once_def)
next
  case (CP_exit w)
  assume "cp_once s" then show ?thesis using CP_exit by (simp add: cp_once_def cp_ids_def)
next
  case CP_destroy
  assume "cp_once s" then show ?thesis using CP_destroy
    by (simp add: cp_once_def cp_ids_def cp_destroy_eq)
qed

lemma cp_once_run: "cp_once s \<Longrightarrow> cp_once (cp_run s evs)"
  by (induction evs arbitrary: s) (auto simp: cp_once_step)

lemma cp_sent_distinct: "distinct (map snd (cp_sent (cp_run (cp_new n) evs)))"
  using cp_once_run[OF cp_once_new, of n evs] by (simp add: cp_once_def cp_ids_def)

lemma find_Some_ex: "x \<in> set xs \<Longrightarrow> P x \<Longrightarrow> \<exists>y. find P xs = Some y"
  by (induction xs) auto

lemma cp_runTask_after_exit:
  assumes "w \<in> set (cp_workers s)"
  shows "map snd (cp_sent (cp_runTask (cp_step s (CP_exit w)) d)) = map snd (cp_sent s) @ [cp_nextTask s]"
proof -
  let ?s = "cp_onExit s w"
  have "cp_nextPid s \<in> set (cp_workers ?s)" using cp_onExit_workers[OF assms] by simp
  moreover have "\<not> cp_busy ?s (cp_nextPid s)" by simp
  ultimately obtain y where "find (\<lambda>v. \<not> cp_busy ?s v) (cp_workers ?s) = Some y"
    using find_Some_ex[of "cp_nextPid s" "cp_workers ?s" "\<lambda>v. \<not> cp_busy ?s v"] by blast
  then show ?thesis using assms by (simp add: cp_runTask_def cp_send_def Let_def)
qed

lemma cl_onExit_dom:
  "dom (cl_workers (cl_onExit s pid now)) = insert (cl_nextPid s) (dom (cl_workers s) - {pid})"
  by (auto simp: cl_onExit_def cl_fork_def Let_def)

lemma cp_message_calls:
  assumes "w < cp_nextPid s" "cp_callback s w = Some c"
  shows "cp_called (cp_step s (CP_message w m)) = cp_called s @ [(c, cp_reply m)]"
  using assms by (simp add: cp_onMessage_def Let_def)

lemma cp_reply_error:
  "cp_reply \<lparr>msg_error = Some e, msg_result = r\<rparr> = (if e \<noteq> 0 then Rejected e else Resolved r)"
  and cp_reply_result: "cp_reply \<lparr>msg_error = None, msg_result = r\<rparr> = Resolved r"
  by (simp_all add: cp_reply_def)

subsection \<open>The length of the queue, and the pool after destroy\<close>

lemma tp_free_addWorkers [simp]:
  "length (tp_freeWorkers (tp_addWorkers n s)) = length (tp_freeWorkers s) + n"
  by (induction n arbitrary: s) (auto simp: tp_addWorker_def Let_def)

lemma tp_free_new: "length (tp_freeWorkers (tp_new n)) = n"
  by (simp add: tp_new_def)

lemma tp_queue_addWorkers [simp]: "tp_queue (tp_addWorkers n s) = tp_queue s"
  by (induction n arbitrary: s) (auto simp: tp_addWorker_def Let_def)

lemma tp_queue_new: "tp_queue (tp_new n) = []"
  by (simp add: tp_new_def)

text \<open>Submissions alone first use up the free workers and then fill the queue.\<close>

lemma tp_queue_replicate:
  "length (tp_queue (tp_run s (replicate m (TP_runTask d))))
     = length (tp_queue s) + (m - length (tp_freeWorkers s))"
proof (induction m arbitrary: s)
  case 0 show ?case by simp
next
  case (Suc m)
  show ?case
  proof (cases "tp_freeWorkers s" rule: rev_cases)
    case Nil
    then have "tp_freeWorkers (tp_runTask s d) = []"
      "length (tp_queue (tp_runTask s d)) = Suc (length (tp_queue s))"
      by (simp_all add: tp_runTask_def Let_def)
    then show ?thesis using Suc[of "tp_runTask s d"] Nil by simp
  next
    case (snoc rest w)
    then have "tp_freeWorkers (tp_runTask s d) = rest"
      "tp_queue (tp_runTask s d) = tp_queue s"
      by (simp_all add: tp_runTask_def tp_runTaskOnWorker_def Let_def)
    then show ?thesis using Suc[of "tp_runTask s d"] snoc by simp
  qed
qed

lemma tp_queue_unbounded:
  "length (tp_queue (tp_run (tp_new n) (replicate (n + k) (TP_runTask d)))) = k"
  by (simp add: tp_queue_replicate tp_free_new tp_queue_new)

lemma tp_busy_not_free:
  assumes "tp_currentTask (tp_run (tp_new n) evs) w = Some t"
  shows "w \<notin> set (tp_freeWorkers (tp_run (tp_new n) evs))"
  using tp_invD(4)[OF tp_inv_reach, of w n evs] assms by auto

text \<open>The reply of a worker starts the head of the queue on that worker.\<close>

lemma tp_message_starts:
  assumes "w \<in> set (tp_workers (tp_run (tp_new n) evs))"
    and "tp_currentTask (tp_run (tp_new n) evs) w = Some t0"
    and "tp_queue (tp_run (tp_new n) evs) = t # q"
  shows "tp_posted (tp_step (tp_run (tp_new n) evs) (TP_message w r))
           = tp_posted (tp_run (tp_new n) evs) @ [(w, tid t)]"
    and "tp_queue (tp_step (tp_run (tp_new n) evs) (TP_message w r)) = q"
proof -
  let ?s = "tp_run (tp_new n) evs"
  have "tp_fifo ?s" by (rule tp_fifo_run[OF tp_fifo_new])
  then have f: "tp_freeWorkers ?s = []" using assms(3) by (simp add: tp_fifo_def)
  show "tp_posted (tp_step ?s (TP_message w r)) = tp_posted ?s @ [(w, tid t)]"
    and "tp_queue (tp_step ?s (TP_message w r)) = q"
    using assms f
    by (simp_all add: tp_onMessage_def tp_runNext_def tp_runTaskOnWorker_def pop_def)
qed

lemma tp_runTask_starts:
  assumes "tp_freeWorkers s = rest @ [w]"
  shows "tp_posted (tp_runTask s d) = tp_posted s @ [(w, tp_nextTask s)]"
  using assms by (simp add: tp_runTask_def tp_runTaskOnWorker_def Let_def)

lemma cp_destroyed_workers:
  assumes "cp_wf s"
  shows "cp_workers (cp_destroyed s) = [cp_nextPid s ..< cp_nextPid s + cp_size s]"
    and "set (cp_workers (cp_destroyed s)) \<inter> cp_killed (cp_destroyed s) = {}"
proof -
  show w: "cp_workers (cp_destroyed s) = [cp_nextPid s ..< cp_nextPid s + cp_size s]"
    unfolding cp_destroyed_def by (rule cp_destroy_respawn(1)[OF assms])
  have k: "cp_killed (cp_destroyed s) = cp_killed s \<union> set (cp_workers s)"
    unfolding cp_destroyed_def by (rule cp_destroy_respawn(2)[OF assms])
  have "cp_killed s \<union> set (cp_workers s) \<subseteq> {..<cp_nextPid s}"
    using assms by (simp add: cp_wf_def)
  then show "set (cp_workers (cp_destroyed s)) \<inter> cp_killed (cp_destroyed s) = {}"
    unfolding w k by auto
qed

lemma cp_onExit_ignores_killed:
  "cp_workers (cp_onExit (cp_destroy s) w) = cp_workers (cp_onExit s w)"
  by (simp add: cp_destroy_eq cp_onExit_def cp_removeWorker_def cp_createWorker_def Let_def)

section \<open>The claims\<close>

subsection \<open>C1: every task is settled exactly once\<close>

text \<open>
  C1, as stated, fails on shutdown. A worker\_threads pool of one worker is given two
  tasks: task 0 is in flight on worker 0 and task 1 waits in the queue when \<open>close()\<close>
  terminates the worker in the middle of its task. Neither \<open>resolve\<close> nor \<open>reject\<close> has
  been called for either, and the calls that follow settle nothing. In the slot pool the
  task in flight is rejected when its terminated Worker exits, but task 1 stays in the
  queue, unsettled.
\<close>

theorem tp_close_leaves_tasks_pending:
  "tp_currentTask (tp_run (tp_new 1) [TP_runTask 7, TP_runTask 8, TP_close]) 0
     = Some \<lparr>tid = 0, data = 7\<rparr> \<and>
   tp_queue (tp_run (tp_new 1) [TP_runTask 7, TP_runTask 8, TP_close])
     = [\<lparr>tid = 1, data = 8\<rparr>] \<and>
   0 \<in> tp_dead (tp_run (tp_new 1) [TP_runTask 7, TP_runTask 8, TP_close]) \<and>
   tp_settled (tp_run (tp_new 1)
     [TP_runTask 7, TP_runTask 8, TP_close, TP_runTask 9, TP_close]) = [] \<and>
   sp_queue (sp_run (sp_new 1) [SP_execute 7, SP_execute 8, SP_terminate, SP_exit 0 1])
     = [\<lparr>tid = 1, data = 8\<rparr>] \<and>
   sp_settled (sp_run (sp_new 1) [SP_execute 7, SP_execute 8, SP_terminate, SP_exit 0 1])
     = [(0, RejectedExit 1)]"
  by code_simp

text \<open>
  C1, amended. In the worker\_threads pool of worker-pool.js, along every sequence of
  calls and worker events \<open>resolve\<close> or \<open>reject\<close> is called at most once for each
  task. Shutdown settles nothing by itself: after \<open>close()\<close>, as long as only
  \<open>runTask\<close> and \<open>close\<close> are called, the settlements stay those made before it, so a
  task that is queued or in flight at \<open>close()\<close> is settled only if a terminated
  worker still delivers a \<open>'message'\<close> or an \<open>'error'\<close>. In the slot pool of
  worker-demo.js \<open>terminate()\<close> settles nothing either; the task in flight in a Worker
  is rejected when that Worker exits with a code other than 0; and the settlements made
  are never taken back, so the first one made for a task, which is the one its Promise
  keeps, stays.
\<close>

theorem settled_at_most_once_and_shutdown_settles_nothing:
  "distinct (map fst (tp_settled (tp_run (tp_new n) evs))) \<and>
   (list_all tp_isCall evs' \<longrightarrow> tp_settled (tp_run (tp_close s) evs') = tp_settled s) \<and>
   sp_settled (sp_terminate p) = sp_settled p \<and>
   (sp_handlers p w = Some (i, t) \<and> w \<notin> sp_exited p \<and> code \<noteq> 0 \<longrightarrow>
      sp_settled (sp_step p (SP_exit w code)) = sp_settled p @ [(tid t, RejectedExit code)]) \<and>
   prefix (sp_settled p) (sp_settled (sp_run p evs''))"
proof -
  have "tp_settled (tp_run (tp_close s) evs') = tp_settled s" if "list_all tp_isCall evs'"
    using tp_calls_settle_nothing[OF that, of "tp_close s"] by (simp add: tp_close_eq)
  then show ?thesis
    using tp_settled_distinct[of n evs] sp_settled_terminate[of p]
      sp_exit_rejects[of p w i t code] sp_settled_run[of p evs'']
    by blast
qed

text \<open>
  The hypotheses of C1 at a \<open>runTask\<close> and a second \<open>close\<close> after the \<open>close()\<close> of a pool
  with one task in flight and one queued, and at the exit with code 1 of the terminated
  Worker 0 of a slot pool.
\<close>

theorem settled_at_most_once_and_shutdown_settles_nothing_witness:
  "list_all tp_isCall [TP_runTask 9, TP_close] \<and>
   tp_settled (tp_run (tp_close (tp_run (tp_new 1) [TP_runTask 7, TP_runTask 8]))
       [TP_runTask 9, TP_close])
     = tp_settled (tp_run (tp_new 1) [TP_runTask 7, TP_runTask 8]) \<and>
   sp_handlers (sp_run (sp_new 1) [SP_execute 7, SP_terminate]) 0
     = Some (0, \<lparr>tid = 0, data = 7\<rparr>) \<and>
   0 \<notin> sp_exited (sp_run (sp_new 1) [SP_execute 7, SP_terminate]) \<and>
   (1::int) \<noteq> 0 \<and>
   sp_settled (sp_step (sp_run (sp_new 1) [SP_execute 7, SP_terminate]) (SP_exit 0 1))
     = sp_settled (sp_run (sp_new 1) [SP_execute 7, SP_terminate])
       @ [(tid \<lparr>tid = 0, data = 7\<rparr>, RejectedExit 1)]"
proof -
  have h1: "list_all tp_isCall [TP_runTask 9, TP_close]" by simp
  have h2: "sp_handlers (sp_run (sp_new 1) [SP_execute 7, SP_terminate]) 0
      = Some (0, \<lparr>tid = 0, data = 7\<rparr>) \<and>
      0 \<notin> sp_exited (sp_run (sp_new 1) [SP_execute 7, SP_terminate]) \<and> (1::int) \<noteq> 0"
    by code_simp
  show ?thesis
    using h1 h2 settled_at_most_once_and_shutdown_settles_nothing
      [where n = 1 and evs = "[]" and evs' = "[TP_runTask 9, TP_close]"
         and s = "tp_run (tp_new 1) [TP_runTask 7, TP_runTask 8]"
         and p = "sp_run (sp_new 1) [SP_execute 7, SP_terminate]" and w = 0 and i = 0
         and t = "\<lparr>tid = 0, data = 7\<rparr>" and code = 1 and evs'' = "[]"]
    by blast
qed

subsection \<open>C2: the queue is bounded by queueCapacity\<close>

text \<open>
  C2, as stated, fails for a capacity of one: with one task in the queue of a pool whose
  only worker is busy, a further \<open>runTask\<close> (or \<open>execute\<close>) is accepted and the queue
  holds two tasks.
\<close>

theorem submit_grows_queue_past_capacity:
  "length (tp_queue (tp_run (tp_new 1) [TP_runTask 1, TP_runTask 2])) = 1 \<and>
   length (tp_queue (tp_run (tp_new 1) [TP_runTask 1, TP_runTask 2, TP_runTask 3])) = 2 \<and>
   length (sp_queue (sp_run (sp_new 1) [SP_execute 1, SP_execute 2])) = 1 \<and>
   length (sp_queue (sp_run (sp_new 1) [SP_execute 1, SP_execute 2, SP_execute 3])) = 2"
  by code_simp

text \<open>
  C2, amended. The queue has no capacity. \<open>runTask\<close> and \<open>execute\<close> never fail: when no
  worker (no slot) is free the task is appended to the end of the queue, which grows by
  one, and otherwise the queue is left as it is; so the queue of a pool of \<open>n\<close> workers
  reaches every length \<open>k\<close>, after \<open>n + k\<close> submissions.
\<close>

theorem submit_appends_to_unbounded_queue:
  "tp_queue (tp_runTask s d) =
     (if tp_freeWorkers s = [] then tp_queue s @ [\<lparr>tid = tp_nextTask s, data = d\<rparr>]
      else tp_queue s) \<and>
   sp_queue (sp_execute p d) =
     (if findIndex (\<lambda>sl. \<not> busy sl) (sp_workers p) = None
      then sp_queue p @ [\<lparr>tid = sp_nextTask p, data = d\<rparr>]
      else sp_queue p) \<and>
   length (tp_queue (tp_run (tp_new n) (replicate (n + k) (TP_runTask d)))) = k"
  using tp_runTask_queue[of s d] sp_execute_queue[of p d] tp_queue_unbounded[of n k d]
  by (intro conjI)

subsection \<open>C3: never more than size workers\<close>

text \<open>
  C3, as stated, fails in the slot pool of worker-demo.js. In a pool of one slot with a
  second task queued, the reply of Worker 0 starts Worker 1 at once, before Worker 0 has
  exited: two Workers are alive in a pool of size one.
\<close>

theorem slot_pool_of_one_holds_two_live_workers:
  "length (sp_workers (sp_run (sp_new 1) [SP_execute 7, SP_execute 8, SP_message 0 5])) = 1 \<and>
   sp_live (sp_run (sp_new 1) [SP_execute 7, SP_execute 8, SP_message 0 5]) = [0, 1]"
  by code_simp

text \<open>
  C3, amended. In the child\_process pool of size \<open>n\<close>, after every sequence of
  \<open>runTask\<close>, \<open>'message'\<close>, \<open>'exit'\<close> and \<open>destroy\<close> steps the array \<open>this.workers\<close>
  holds exactly \<open>n\<close> workers and at most \<open>n\<close> of them are busy; inside the \<open>'exit'\<close>
  handler the dead worker is spliced out before the new one is pushed, so the array holds
  \<open>n - 1\<close> workers in between and \<open>n\<close> again afterwards. In the slot pool of
  worker-demo.js only the slots are bounded: the array holds \<open>n\<close> slots for ever, so at
  most \<open>n\<close> slots are busy and at most \<open>n\<close> hold a Worker. The Workers alive are not
  bounded by \<open>n\<close>: every reply that finds a task in the queue starts one more Worker
  while the Worker that replied has not exited.
\<close>

theorem process_pool_keeps_size_and_slot_pool_bounds_slots:
  "length (cp_workers (cp_run (cp_new n) evs)) = n \<and>
   length (filter (cp_busy (cp_run (cp_new n) evs)) (cp_workers (cp_run (cp_new n) evs))) \<le> n \<and>
   (w \<in> set (cp_workers (cp_run (cp_new n) evs)) \<longrightarrow>
      length (cp_workers (cp_removeWorker (cp_run (cp_new n) evs) w)) = n - 1 \<and>
      length (cp_workers (cp_step (cp_run (cp_new n) evs) (CP_exit w))) = n) \<and>
   length (sp_workers (sp_run (sp_new n) evs')) = n \<and>
   length (filter busy (sp_workers (sp_run (sp_new n) evs'))) \<le> n \<and>
   length (filter (\<lambda>sl. worker sl \<noteq> None) (sp_workers (sp_run (sp_new n) evs'))) \<le> n \<and>
   (sp_handlers (sp_run (sp_new n) evs') v = Some (i, t0) \<and>
    sp_queue (sp_run (sp_new n) evs') = t # q \<longrightarrow>
      sp_live (sp_step (sp_run (sp_new n) evs') (SP_message v r))
        = sp_live (sp_run (sp_new n) evs') @ [sp_nextWorker (sp_run (sp_new n) evs')])"
proof -
  let ?s = "cp_run (cp_new n) evs"
  let ?p = "sp_run (sp_new n) evs'"
  have c: "length (cp_workers ?s) = n" by (rule cp_length_reach)
  have "length (filter (cp_busy ?s) (cp_workers ?s)) \<le> length (cp_workers ?s)"
    by (rule length_filter_le)
  then have cb: "length (filter (cp_busy ?s) (cp_workers ?s)) \<le> n" using c by simp
  have ex: "length (cp_workers (cp_removeWorker ?s w)) = n - 1 \<and>
      length (cp_workers (cp_step ?s (CP_exit w))) = n" if "w \<in> set (cp_workers ?s)"
  proof -
    have "cp_step ?s (CP_exit w) = cp_run (cp_new n) (evs @ [CP_exit w])"
      by (simp add: cp_run_append)
    then have "length (cp_workers (cp_step ?s (CP_exit w))) = n"
      by (simp only: cp_length_reach)
    then show ?thesis using cp_removeWorker_length[OF that] c by simp
  qed
  have p: "length (sp_workers ?p) = n" by (rule sp_length_reach)
  have "length (filter busy (sp_workers ?p)) \<le> length (sp_workers ?p)"
    by (rule length_filter_le)
  then have pb: "length (filter busy (sp_workers ?p)) \<le> n" using p by simp
  have "length (filter (\<lambda>sl. worker sl \<noteq> None) (sp_workers ?p)) \<le> length (sp_workers ?p)"
    by (rule length_filter_le)
  then have pw: "length (filter (\<lambda>sl. worker sl \<noteq> None) (sp_workers ?p)) \<le> n"
    using p by simp
  have lv: "sp_live (sp_step ?p (SP_message v r)) = sp_live ?p @ [sp_nextWorker ?p]"
    if "sp_handlers ?p v = Some (i, t0)" "sp_queue ?p = t # q"
    using sp_live_message[OF sp_wf_reach that] .
  show ?thesis using c cb ex p pb pw lv by blast
qed

text \<open>
  The hypotheses of C3 at a child\_process pool of two workers in which worker 0 has exited
  and worker 1 is alive, and at a slot pool of two slots whose Worker 0 replies while a
  task is queued.
\<close>

theorem process_pool_keeps_size_and_slot_pool_bounds_slots_witness:
  "1 \<in> set (cp_workers (cp_run (cp_new 2) [CP_runTask 7, CP_exit 0])) \<and>
   length (cp_workers (cp_removeWorker (cp_run (cp_new 2) [CP_runTask 7, CP_exit 0]) 1)) = 2 - 1 \<and>
   length (cp_workers (cp_step (cp_run (cp_new 2) [CP_runTask 7, CP_exit 0]) (CP_exit 1))) = 2 \<and>
   sp_handlers (sp_run (sp_new 2) [SP_execute 7, SP_execute 8, SP_execute 9]) 0
     = Some (0, \<lparr>tid = 0, data = 7\<rparr>) \<and>
   sp_queue (sp_run (sp_new 2) [SP_execute 7, SP_execute 8, SP_execute 9])
     = \<lparr>tid = 2, data = 9\<rparr> # [] \<and>
   sp_live (sp_step (sp_run (sp_new 2) [SP_execute 7, SP_execute 8, SP_execute 9])
       (SP_message 0 5))
     = sp_live (sp_run (sp_new 2) [SP_execute 7, SP_execute 8, SP_execute 9])
       @ [sp_nextWorker (sp_run (sp_new 2) [SP_execute 7, SP_execute 8, SP_execute 9])]"
proof -
  have h1: "1 \<in> set (cp_workers (cp_run (cp_new 2) [CP_runTask 7, CP_exit 0]))"
    by code_simp
  have h2: "sp_handlers (sp_run (sp_new 2) [SP_execute 7, SP_execute 8, SP_execute 9]) 0
      = Some (0, \<lparr>tid = 0, data = 7\<rparr>) \<and>
      sp_queue (sp_run (sp_new 2) [SP_execute 7, SP_execute 8, SP_execute 9])
      = \<lparr>tid = 2, data = 9\<rparr> # []"
    by code_simp
  show ?thesis
    using h1 h2 process_pool_keeps_size_and_slot_pool_bounds_slots
      [where n = 2 and evs = "[CP_runTask 7, CP_exit 0]" and w = 1
         and evs' = "[SP_execute 7, SP_execute 8, SP_execute 9]" and v = 0 and i = 0
         and ?t0.0 = "\<lparr>tid = 0, data = 7\<rparr>" and t = "\<lparr>tid = 2, data = 9\<rparr>"
         and q = "[]" and r = 5]
    by blast
qed

subsection \<open>C4: tasks start in the order of submission\<close>

text \<open>
  C4. In a pool with one worker, of either worker\_threads class, after every sequence of
  calls and worker events the tasks handed to the worker so far, in the order in which
  they were started, followed by the tasks still in the queue, are the tasks
  \<open>0, 1, \<dots>\<close> in the order of their submission. And the queue moves: a task submitted
  while the worker (the slot) is free is started at once, and each reply of the worker,
  and in the slot pool each error too, starts the task at the head of the queue and
  takes it off the queue. So the tasks are started first in, first out.
\<close>

theorem one_worker_starts_tasks_in_submission_order:
  "map snd (tp_posted (tp_run (tp_new 1) evs)) @ map tid (tp_queue (tp_run (tp_new 1) evs))
     = [0..<length (filter tp_isSubmit evs)] \<and>
   map snd (sp_started (sp_run (sp_new 1) evs')) @ map tid (sp_queue (sp_run (sp_new 1) evs'))
     = [0..<length (filter sp_isSubmit evs')] \<and>
   (tp_freeWorkers s = rest @ [w] \<longrightarrow>
      tp_posted (tp_runTask s d) = tp_posted s @ [(w, tp_nextTask s)]) \<and>
   (w \<in> set (tp_workers (tp_run (tp_new 1) evs)) \<and>
    tp_currentTask (tp_run (tp_new 1) evs) w = Some t0 \<and>
    tp_queue (tp_run (tp_new 1) evs) = t # q \<longrightarrow>
      tp_posted (tp_step (tp_run (tp_new 1) evs) (TP_message w r))
        = tp_posted (tp_run (tp_new 1) evs) @ [(w, tid t)] \<and>
      tp_queue (tp_step (tp_run (tp_new 1) evs) (TP_message w r)) = q) \<and>
   (findIndex (\<lambda>sl. \<not> busy sl) (sp_workers p) = Some i \<longrightarrow>
      sp_started (sp_execute p d) = sp_started p @ [(sp_nextWorker p, sp_nextTask p)]) \<and>
   (sp_handlers p v = Some (j, u0) \<and> sp_queue p = u # qq \<longrightarrow>
      sp_started (sp_step p (SP_message v r)) = sp_started p @ [(sp_nextWorker p, tid u)] \<and>
      sp_queue (sp_step p (SP_message v r)) = qq \<and>
      sp_started (sp_step p (SP_error v e)) = sp_started p @ [(sp_nextWorker p, tid u)] \<and>
      sp_queue (sp_step p (SP_error v e)) = qq)"
proof -
  have a: "map snd (tp_posted (tp_run (tp_new 1) evs)) @ map tid (tp_queue (tp_run (tp_new 1) evs))
      = [0..<length (filter tp_isSubmit evs)]"
    by (simp only: tp_fifo_reach tp_nextTask_reach)
  have b: "map snd (sp_started (sp_run (sp_new 1) evs')) @ map tid (sp_queue (sp_run (sp_new 1) evs'))
      = [0..<length (filter sp_isSubmit evs')]"
    by (simp only: sp_fifo_reach sp_nextTask_reach)
  show ?thesis
    using a b tp_runTask_starts[of s rest w d] tp_message_starts[of w 1 evs t0 t q r]
      sp_execute_starts[of p i d] sp_message_starts(1,2)[of p v j u0 u qq r]
      sp_error_starts[of p v j u0 u qq e]
    by blast
qed

text \<open>
  The hypotheses of C4 at pools of one worker given three tasks: the worker (the slot) is
  free at the first and replies while the second is at the head of the queue.
\<close>

theorem one_worker_starts_tasks_in_submission_order_witness:
  "tp_freeWorkers (tp_new 1) = [] @ [0] \<and>
   tp_posted (tp_runTask (tp_new 1) 7) = tp_posted (tp_new 1) @ [(0, tp_nextTask (tp_new 1))] \<and>
   0 \<in> set (tp_workers (tp_run (tp_new 1) [TP_runTask 7, TP_runTask 8, TP_runTask 9])) \<and>
   tp_currentTask (tp_run (tp_new 1) [TP_runTask 7, TP_runTask 8, TP_runTask 9]) 0
     = Some \<lparr>tid = 0, data = 7\<rparr> \<and>
   tp_queue (tp_run (tp_new 1) [TP_runTask 7, TP_runTask 8, TP_runTask 9])
     = \<lparr>tid = 1, data = 8\<rparr> # [\<lparr>tid = 2, data = 9\<rparr>] \<and>
   tp_posted (tp_step (tp_run (tp_new 1) [TP_runTask 7, TP_runTask 8, TP_runTask 9])
       (TP_message 0 5))
     = tp_posted (tp_run (tp_new 1) [TP_runTask 7, TP_runTask 8, TP_runTask 9])
       @ [(0, tid \<lparr>tid = 1, data = 8\<rparr>)] \<and>
   findIndex (\<lambda>sl. \<not> busy sl) (sp_workers (sp_new 1)) = Some 0 \<and>
   sp_started (sp_execute (sp_new 1) 7)
     = sp_started (sp_new 1) @ [(sp_nextWorker (sp_new 1), sp_nextTask (sp_new 1))] \<and>
   sp_handlers (sp_run (sp_new 1) [SP_execute 7, SP_execute 8, SP_execute 9]) 0
     = Some (0, \<lparr>tid = 0, data = 7\<rparr>) \<and>
   sp_queue (sp_run (sp_new 1) [SP_execute 7, SP_execute 8, SP_execute 9])
     = \<lparr>tid = 1, data = 8\<rparr> # [\<lparr>tid = 2, data = 9\<rparr>] \<and>
   sp_started (sp_step (sp_run (sp_new 1) [SP_execute 7, SP_execute 8, SP_execute 9])
       (SP_message 0 5))
     = sp_started (sp_run (sp_new 1) [SP_execute 7, SP_execute 8, SP_execute 9])
       @ [(sp_nextWorker (sp_run (sp_new 1) [SP_execute 7, SP_execute 8, SP_execute 9]),
           tid \<lparr>tid = 1, data = 8\<rparr>)]"
proof -
  have h1: "tp_freeWorkers (tp_new 1) = [] @ [0]" by code_simp
  have h2: "0 \<in> set (tp_workers (tp_run (tp_new 1) [TP_runTask 7, TP_runTask 8, TP_runTask 9])) \<and>
      tp_currentTask (tp_run (tp_new 1) [TP_runTask 7, TP_runTask 8, TP_runTask 9]) 0
        = Some \<lparr>tid = 0, data = 7\<rparr> \<and>
      tp_queue (tp_run (tp_new 1) [TP_runTask 7, TP_runTask 8, TP_runTask 9])
        = \<lparr>tid = 1, data = 8\<rparr> # [\<lparr>tid = 2, data = 9\<rparr>]"
    by code_simp
  have h3: "findIndex (\<lambda>sl. \<not> busy sl) (sp_workers (sp_new 1)) = Some 0" by code_simp
  have h4: "sp_handlers (sp_run (sp_new 1) [SP_execute 7, SP_execute 8, SP_execute 9]) 0
        = Some (0, \<lparr>tid = 0, data = 7\<rparr>) \<and>
      sp_queue (sp_run (sp_new 1) [SP_execute 7, SP_execute 8, SP_execute 9])
        = \<lparr>tid = 1, data = 8\<rparr> # [\<lparr>tid = 2, data = 9\<rparr>]"
    by code_simp
  have t1: "tp_posted (tp_runTask (tp_new 1) 7)
      = tp_posted (tp_new 1) @ [(0, tp_nextTask (tp_new 1))]"
    using h1 one_worker_starts_tasks_in_submission_order
      [where evs = "[]" and evs' = "[]" and s = "tp_new 1" and rest = "[]" and w = 0
          and d = 7 and ?t0.0 = "\<lparr>tid = 0, data = 7\<rparr>" and t = "\<lparr>tid = 1, data = 8\<rparr>"
          and q = "[]" and r = 5 and p = "sp_new 1" and i = 0
          and v = 0 and j = 0 and ?u0.0 = "\<lparr>tid = 0, data = 7\<rparr>"
          and u = "\<lparr>tid = 1, data = 8\<rparr>" and qq = "[]" and e = 0]
    by blast
  have t2: "sp_started (sp_execute (sp_new 1) 7)
      = sp_started (sp_new 1) @ [(sp_nextWorker (sp_new 1), sp_nextTask (sp_new 1))]"
    using h3 one_worker_starts_tasks_in_submission_order
      [where evs = "[]" and evs' = "[]" and s = "tp_new 1" and rest = "[]" and w = 0
          and d = 7 and ?t0.0 = "\<lparr>tid = 0, data = 7\<rparr>" and t = "\<lparr>tid = 1, data = 8\<rparr>"
          and q = "[]" and r = 5 and p = "sp_new 1" and i = 0
          and v = 0 and j = 0 and ?u0.0 = "\<lparr>tid = 0, data = 7\<rparr>"
          and u = "\<lparr>tid = 1, data = 8\<rparr>" and qq = "[]" and e = 0]
    by blast
  have t3: "tp_posted (tp_step (tp_run (tp_new 1) [TP_runTask 7, TP_runTask 8, TP_runTask 9])
       (TP_message 0 5))
     = tp_posted (tp_run (tp_new 1) [TP_runTask 7, TP_runTask 8, TP_runTask 9])
       @ [(0, tid \<lparr>tid = 1, data = 8\<rparr>)]"
    using h2 one_worker_starts_tasks_in_submission_order
      [where evs = "[TP_runTask 7, TP_runTask 8, TP_runTask 9]" and evs' = "[]" and s = "tp_new 1" and rest = "[]" and w = 0
          and d = 7 and ?t0.0 = "\<lparr>tid = 0, data = 7\<rparr>" and t = "\<lparr>tid = 1, data = 8\<rparr>"
          and q = "[\<lparr>tid = 2, data = 9\<rparr>]" and r = 5 and p = "sp_new 1" and i = 0
          and v = 0 and j = 0 and ?u0.0 = "\<lparr>tid = 0, data = 7\<rparr>"
          and u = "\<lparr>tid = 1, data = 8\<rparr>" and qq = "[]" and e = 0]
    by blast
  have t4: "sp_started (sp_step (sp_run (sp_new 1) [SP_execute 7, SP_execute 8, SP_execute 9])
       (SP_message 0 5))
     = sp_started (sp_run (sp_new 1) [SP_execute 7, SP_execute 8, SP_execute 9])
       @ [(sp_nextWorker (sp_run (sp_new 1) [SP_execute 7, SP_execute 8, SP_execute 9]),
           tid \<lparr>tid = 1, data = 8\<rparr>)]"
    using h4 one_worker_starts_tasks_in_submission_order
      [where evs = "[]" and evs' = "[]" and s = "tp_new 1" and rest = "[]" and w = 0
          and d = 7 and ?t0.0 = "\<lparr>tid = 0, data = 7\<rparr>" and t = "\<lparr>tid = 1, data = 8\<rparr>"
          and q = "[]" and r = 5 and p = "sp_run (sp_new 1) [SP_execute 7, SP_execute 8, SP_execute 9]" and i = 0
          and v = 0 and j = 0 and ?u0.0 = "\<lparr>tid = 0, data = 7\<rparr>"
          and u = "\<lparr>tid = 1, data = 8\<rparr>" and qq = "[\<lparr>tid = 2, data = 9\<rparr>]" and e = 0]
    by blast
  show ?thesis using h1 h2 h3 h4 t1 t2 t3 t4 by blast
qed

subsection \<open>C5: a crashed task is retried until maxRetries is exhausted\<close>

text \<open>
  C5, as stated, fails at the first crash. In a pool of two workers the task 0 is in
  flight on worker 1 when that worker emits \<open>'error'\<close>: the task is rejected with the
  worker's error at once, although it was never retried and worker 0 is free; it is not
  put in the queue and is handed to no other worker.
\<close>

theorem worker_error_rejects_first_attempt:
  "tp_settled (tp_run (tp_new 2) [TP_runTask 7, TP_error 1 3]) = [(0, Rejected 3)] \<and>
   tp_queue (tp_run (tp_new 2) [TP_runTask 7, TP_error 1 3]) = [] \<and>
   tp_posted (tp_run (tp_new 2) [TP_runTask 7, TP_error 1 3]) = [(1, 0)] \<and>
   tp_freeWorkers (tp_run (tp_new 2) [TP_runTask 7, TP_error 1 3]) = [0]"
  by code_simp

text \<open>
  C5, amended. No task is retried: along every sequence of calls and events a task is
  handed to a worker at most once, in the worker\_threads pool and in the child\_process
  pool. When a worker of the worker\_threads pool emits \<open>'error'\<close> while a task is in
  flight, the task is rejected with that error at once and neither the queue nor the
  log of posted tasks changes. When a worker process replies, the callback of its task
  is called at once: with the error when \<open>msg.error\<close> is truthy, and with the result
  when it is falsy, as the number 0 is.
\<close>

theorem failed_task_is_rejected_at_once_and_never_retried:
  "distinct (map snd (tp_posted (tp_run (tp_new n) evs))) \<and>
   distinct (map snd (cp_sent (cp_run (cp_new n) evs'))) \<and>
   (w \<in> set (tp_workers s) \<and> tp_currentTask s w = Some t \<longrightarrow>
      tp_settled (tp_step s (TP_error w e)) = tp_settled s @ [(tid t, Rejected e)] \<and>
      tp_queue (tp_step s (TP_error w e)) = tp_queue s \<and>
      tp_posted (tp_step s (TP_error w e)) = tp_posted s) \<and>
   (v < cp_nextPid c \<and> cp_callback c v = Some k \<longrightarrow>
      cp_called (cp_step c (CP_message v \<lparr>msg_error = Some e, msg_result = r\<rparr>))
        = cp_called c @ [(k, if e \<noteq> 0 then Rejected e else Resolved r)] \<and>
      cp_called (cp_step c (CP_message v \<lparr>msg_error = None, msg_result = r\<rparr>))
        = cp_called c @ [(k, Resolved r)])"
proof -
  have m: "cp_called (cp_step c (CP_message v \<lparr>msg_error = Some e, msg_result = r\<rparr>))
        = cp_called c @ [(k, if e \<noteq> 0 then Rejected e else Resolved r)] \<and>
      cp_called (cp_step c (CP_message v \<lparr>msg_error = None, msg_result = r\<rparr>))
        = cp_called c @ [(k, Resolved r)]"
    if h: "v < cp_nextPid c" "cp_callback c v = Some k"
    using cp_message_calls[OF h] by (simp add: cp_reply_error cp_reply_result)
  show ?thesis
    using tp_posted_distinct[of n evs] cp_sent_distinct[of n evs']
      tp_error_busy(1,2,3)[of w s t e] m
    by blast
qed

text \<open>
  The hypotheses of C5 at a worker\_threads pool whose worker 1 runs task 0, and at a
  child\_process pool whose worker 0 runs task 0.
\<close>

theorem failed_task_is_rejected_at_once_and_never_retried_witness:
  "1 \<in> set (tp_workers (tp_run (tp_new 2) [TP_runTask 7])) \<and>
   tp_currentTask (tp_run (tp_new 2) [TP_runTask 7]) 1 = Some \<lparr>tid = 0, data = 7\<rparr> \<and>
   tp_settled (tp_step (tp_run (tp_new 2) [TP_runTask 7]) (TP_error 1 3))
     = tp_settled (tp_run (tp_new 2) [TP_runTask 7]) @ [(tid \<lparr>tid = 0, data = 7\<rparr>, Rejected 3)] \<and>
   0 < cp_nextPid (cp_run (cp_new 1) [CP_runTask 7]) \<and>
   cp_callback (cp_run (cp_new 1) [CP_runTask 7]) 0 = Some 0 \<and>
   cp_called (cp_step (cp_run (cp_new 1) [CP_runTask 7])
       (CP_message 0 \<lparr>msg_error = Some 3, msg_result = 0\<rparr>))
     = cp_called (cp_run (cp_new 1) [CP_runTask 7])
       @ [(0, if (3::nat) \<noteq> 0 then Rejected 3 else Resolved 0)]"
proof -
  have h1: "1 \<in> set (tp_workers (tp_run (tp_new 2) [TP_runTask 7])) \<and>
      tp_currentTask (tp_run (tp_new 2) [TP_runTask 7]) 1 = Some \<lparr>tid = 0, data = 7\<rparr>"
    by code_simp
  have h2: "0 < cp_nextPid (cp_run (cp_new 1) [CP_runTask 7]) \<and>
      cp_callback (cp_run (cp_new 1) [CP_runTask 7]) 0 = Some 0"
    by code_simp
  show ?thesis
    using h1 h2
      failed_task_is_rejected_at_once_and_never_retried
        [where n = 2 and evs = "[]" and evs' = "[]" and s = "tp_run (tp_new 2) [TP_runTask 7]"
           and w = 1 and t = "\<lparr>tid = 0, data = 7\<rparr>" and e = 3 and v = 0
           and c = "cp_run (cp_new 1) [CP_runTask 7]" and k = 0 and r = 0]
    by blast
qed

subsection \<open>C6: the crash budget stops respawning\<close>

text \<open>
  C6, as stated, fails: three workers of a pool of size one exit in a row, which exceeds a
  crash budget of two in any window, and a fourth worker is forked all the same; the
  \<open>runTask\<close> that follows is accepted and sent to it.
\<close>

theorem respawn_and_submit_after_three_crashes:
  "cp_workers (cp_run (cp_new 1) [CP_exit 0, CP_exit 1, CP_exit 2]) = [3] \<and>
   cp_sent (cp_run (cp_new 1) [CP_exit 0, CP_exit 1, CP_exit 2, CP_runTask 7]) = [(3, 0)]"
  by code_simp

text \<open>
  C6, amended. There is no crash budget and no degraded state. In every state of the
  child\_process pool, whatever the number of earlier exits, the exit of a worker of the
  pool removes it and forks a new worker, and the \<open>runTask\<close> that follows is accepted and
  sent to a worker at once; the master of cluster-demo.js forks a new worker on every
  exit.
\<close>

theorem every_exit_respawns_and_submit_is_accepted:
  "(w \<in> set (cp_workers s) \<longrightarrow>
      cp_workers (cp_step s (CP_exit w)) = remove1 w (cp_workers s) @ [cp_nextPid s] \<and>
      map snd (cp_sent (cp_runTask (cp_step s (CP_exit w)) d))
        = map snd (cp_sent s) @ [cp_nextTask s]) \<and>
   dom (cl_workers (cl_onExit c pid now)) = insert (cl_nextPid c) (dom (cl_workers c) - {pid})"
  using cp_onExit_workers[of w s] cp_runTask_after_exit[of w s d] cl_onExit_dom[of c pid now]
  by simp

text \<open>The hypothesis of C6 at a pool of one worker that has already lost two workers.\<close>

theorem every_exit_respawns_and_submit_is_accepted_witness:
  "2 \<in> set (cp_workers (cp_run (cp_new 1) [CP_exit 0, CP_exit 1])) \<and>
   cp_workers (cp_step (cp_run (cp_new 1) [CP_exit 0, CP_exit 1]) (CP_exit 2))
     = remove1 2 (cp_workers (cp_run (cp_new 1) [CP_exit 0, CP_exit 1]))
       @ [cp_nextPid (cp_run (cp_new 1) [CP_exit 0, CP_exit 1])]"
proof -
  have h: "2 \<in> set (cp_workers (cp_run (cp_new 1) [CP_exit 0, CP_exit 1]))"
    by code_simp
  show ?thesis
    using h every_exit_respawns_and_submit_is_accepted
      [of 2 "cp_run (cp_new 1) [CP_exit 0, CP_exit 1]" 0 "cl_new 1 0" 0 0]
    by blast
qed

subsection \<open>C7: no submission after shutdown\<close>

text \<open>
  C7, as stated, fails: after \<open>close()\<close> a \<open>runTask\<close> is accepted and posted to the
  terminated worker, and the next one is queued; after \<open>terminate()\<close> an \<open>execute\<close>
  starts a new Worker.
\<close>

theorem submit_is_accepted_after_shutdown:
  "tp_posted (tp_run (tp_new 1) [TP_close, TP_runTask 7]) = [(0, 0)] \<and>
   tp_queue (tp_run (tp_new 1) [TP_close, TP_runTask 7, TP_runTask 8])
     = [\<lparr>tid = 1, data = 8\<rparr>] \<and>
   sp_started (sp_run (sp_new 1) [SP_terminate, SP_execute 7]) = [(0, 0)]"
  by code_simp

text \<open>
  C7, amended. Shutdown does not close the pool to submissions: \<open>runTask\<close> after
  \<open>close()\<close> does what \<open>runTask\<close> before it does, and \<open>execute\<close> after \<open>terminate()\<close>
  does what \<open>execute\<close> does without it, the terminated workers apart. Nor does
  \<open>close()\<close> change how the queue is served: every sequence of calls and events leaves
  after \<open>close()\<close> the state it leaves without it, with the workers terminated. So the
  tasks queued at \<open>close()\<close> leave the queue when, and only when, they would have left
  it without \<open>close()\<close>, and every worker they can go to has been terminated.
\<close>

theorem shutdown_does_not_reject_submit:
  "tp_runTask (tp_close s) d = tp_close (tp_runTask s d) \<and>
   sp_execute (sp_terminate p) d = (sp_execute p d)\<lparr>sp_dead := sp_dead (sp_terminate p)\<rparr> \<and>
   tp_run (tp_close s) evs = tp_close (tp_run s evs) \<and>
   tp_queue (tp_run (tp_close s) evs) = tp_queue (tp_run s evs) \<and>
   set (tp_workers (tp_run (tp_close s) evs)) \<subseteq> tp_dead (tp_run (tp_close s) evs)"
proof -
  have c: "tp_run (tp_close s) evs = tp_close (tp_run s evs)" by (rule tp_run_close)
  have "tp_queue (tp_close (tp_run s evs)) = tp_queue (tp_run s evs)"
    and "set (tp_workers (tp_close (tp_run s evs))) \<subseteq> tp_dead (tp_close (tp_run s evs))"
    by (simp_all add: tp_close_eq)
  then show ?thesis
    using c tp_runTask_close[of s d] sp_execute_terminate[of p d] by simp
qed

subsection \<open>C8: shutdown is idempotent\<close>



subsection \<open>C9: destroy() re-populates the child\_process pool\<close>

text \<open>
  C9. The \<open>'exit'\<close> handler does for a worker that \<open>destroy()\<close> killed what it does for
  any other. So once every process killed by \<open>destroy()\<close> has exited, the pool of size
  \<open>n\<close> holds \<open>n\<close> workers again, all of them forked after \<open>destroy()\<close> and none of them
  killed: the pool is not stopped.
\<close>

theorem destroy_repopulates_pool:
  "cp_workers (cp_onExit (cp_destroy s) w) = cp_workers (cp_onExit s w) \<and>
   cp_workers (cp_destroyed (cp_run (cp_new n) evs))
     = [cp_nextPid (cp_run (cp_new n) evs) ..< cp_nextPid (cp_run (cp_new n) evs) + n] \<and>
   length (cp_workers (cp_destroyed (cp_run (cp_new n) evs))) = n \<and>
   set (cp_workers (cp_destroyed (cp_run (cp_new n) evs)))
     \<inter> cp_killed (cp_destroyed (cp_run (cp_new n) evs)) = {}"
proof -
  let ?s = "cp_run (cp_new n) evs"
  have wf: "cp_wf ?s" by (rule cp_wf_reach)
  have sz: "cp_size ?s = n" by simp
  have 1: "cp_workers (cp_destroyed ?s) = [cp_nextPid ?s ..< cp_nextPid ?s + n]"
    using cp_destroyed_workers(1)[OF wf] sz by simp
  then have 2: "length (cp_workers (cp_destroyed ?s)) = n" by simp
  show ?thesis
    using 1 2 cp_destroyed_workers(2)[OF wf] cp_onExit_ignores_killed[of s w] by (intro conjI)
qed

subsection \<open>C10: a worker error shrinks the worker\_threads pool for good\<close>

text \<open>
  C10, as stated, fails for a worker that emits \<open>'error'\<close> while it is idle: the handler
  does nothing, the worker stays in \<open>freeWorkers\<close>, and the next \<open>runTask\<close> hands it the
  task.
\<close>

theorem idle_worker_error_keeps_worker_assignable:
  "tp_freeWorkers (tp_run (tp_new 1) [TP_error 0 3]) = [0] \<and>
   tp_settled (tp_run (tp_new 1) [TP_error 0 3]) = [] \<and>
   tp_posted (tp_run (tp_new 1) [TP_error 0 3, TP_runTask 7]) = [(0, 0)]"
  by code_simp

text \<open>
  C10, amended. In a state the worker\_threads pool can reach, a worker that emits
  \<open>'error'\<close> while it holds a task has that task rejected; the worker stays in
  \<open>this.workers\<close>, is not replaced, and is out of use for good: whatever follows, it is
  never in \<open>freeWorkers\<close> and never holds a task again. An \<open>'error'\<close> of a worker that
  holds no task changes nothing. Once every worker of the pool is out of use, nothing is
  settled any more: the promises of the tasks in the queue and of every later
  \<open>runTask\<close> stay pending, and the queue only grows.
\<close>

theorem busy_worker_error_puts_worker_out_of_use:
  "(w \<in> set (tp_workers (tp_run (tp_new n) evs)) \<and>
    tp_currentTask (tp_run (tp_new n) evs) w = Some t \<longrightarrow>
      tp_settled (tp_step (tp_run (tp_new n) evs) (TP_error w e))
        = tp_settled (tp_run (tp_new n) evs) @ [(tid t, Rejected e)] \<and>
      tp_workers (tp_run (tp_step (tp_run (tp_new n) evs) (TP_error w e)) evs')
        = tp_workers (tp_run (tp_new n) evs) \<and>
      tp_retired (tp_run (tp_step (tp_run (tp_new n) evs) (TP_error w e)) evs') w) \<and>
   (tp_currentTask s v = None \<longrightarrow> tp_step s (TP_error v e) = s) \<and>
   (list_all (tp_retired (tp_run (tp_new m) evs0)) (tp_workers (tp_run (tp_new m) evs0)) \<longrightarrow>
      tp_settled (tp_run (tp_run (tp_new m) evs0) evs'') = tp_settled (tp_run (tp_new m) evs0) \<and>
      prefix (tp_queue (tp_run (tp_new m) evs0))
        (tp_queue (tp_run (tp_run (tp_new m) evs0) evs'')))"
proof -
  let ?s = "tp_run (tp_new n) evs"
  let ?s' = "tp_step ?s (TP_error w e)"
  let ?u = "tp_run (tp_new m) evs0"
  have a: "tp_settled ?s' = tp_settled ?s @ [(tid t, Rejected e)] \<and>
      tp_workers (tp_run ?s' evs') = tp_workers ?s \<and>
      tp_retired (tp_run ?s' evs') w"
    if h: "w \<in> set (tp_workers ?s)" "tp_currentTask ?s w = Some t"
  proof -
    have nf: "w \<notin> set (tp_freeWorkers ?s)" by (rule tp_busy_not_free[OF h(2)])
    have "tp_retired ?s' w"
      using tp_error_busy(4,5)[OF h, of e] nf by (simp add: tp_retired_def)
    then have "tp_retired (tp_run ?s' evs') w" by (rule tp_retired_run)
    moreover have "tp_workers (tp_run ?s' evs') = tp_workers ?s"
      by (simp only: tp_workers_run tp_workers_step)
    ultimately show ?thesis using tp_error_busy(1)[OF h] by blast
  qed
  have b: "tp_step s (TP_error v e) = s" if "tp_currentTask s v = None"
    using that by (simp add: tp_onError_def)
  have c: "tp_settled (tp_run ?u evs'') = tp_settled ?u \<and>
      prefix (tp_queue ?u) (tp_queue (tp_run ?u evs''))"
    if h: "list_all (tp_retired ?u) (tp_workers ?u)"
  proof -
    have r: "\<forall>x\<in>set (tp_workers ?u). x \<notin> set (tp_freeWorkers ?u) \<and> tp_currentTask ?u x = None"
      using h by (simp add: list_all_iff tp_retired_def)
    have "set (tp_freeWorkers ?u) \<subseteq> set (tp_workers ?u)"
      using tp_sub_reach[of m evs0] by (simp add: tp_sub_def)
    then have "x \<notin> set (tp_freeWorkers ?u)" for x
      using r subsetD by metis
    then have f: "tp_freeWorkers ?u = []" by (cases "tp_freeWorkers ?u") auto
    have "\<forall>x\<in>set (tp_workers ?u). tp_currentTask ?u x = None" using r by blast
    then show ?thesis by (rule tp_all_retired_run[OF f])
  qed
  show ?thesis using a b c by blast
qed

text \<open>
  The hypotheses of C10 at a pool of one worker: worker 0 holds task 0 when it emits
  \<open>'error'\<close>; before any task it holds none; and after the error every worker of the pool
  is out of use.
\<close>

theorem busy_worker_error_puts_worker_out_of_use_witness:
  "0 \<in> set (tp_workers (tp_run (tp_new 1) [TP_runTask 7])) \<and>
   tp_currentTask (tp_run (tp_new 1) [TP_runTask 7]) 0 = Some \<lparr>tid = 0, data = 7\<rparr> \<and>
   tp_retired (tp_run (tp_step (tp_run (tp_new 1) [TP_runTask 7]) (TP_error 0 3))
       [TP_runTask 8, TP_message 0 5]) 0 \<and>
   tp_currentTask (tp_new 1) 0 = None \<and>
   tp_step (tp_new 1) (TP_error 0 3) = tp_new 1 \<and>
   list_all (tp_retired (tp_run (tp_new 1) [TP_runTask 7, TP_error 0 3]))
     (tp_workers (tp_run (tp_new 1) [TP_runTask 7, TP_error 0 3])) \<and>
   tp_settled (tp_run (tp_run (tp_new 1) [TP_runTask 7, TP_error 0 3])
       [TP_runTask 8, TP_message 0 5])
     = tp_settled (tp_run (tp_new 1) [TP_runTask 7, TP_error 0 3])"
proof -
  have h1: "0 \<in> set (tp_workers (tp_run (tp_new 1) [TP_runTask 7])) \<and>
      tp_currentTask (tp_run (tp_new 1) [TP_runTask 7]) 0 = Some \<lparr>tid = 0, data = 7\<rparr>"
    by code_simp
  have h2: "tp_currentTask (tp_new 1) 0 = None" by code_simp
  have h3: "list_all (tp_retired (tp_run (tp_new 1) [TP_runTask 7, TP_error 0 3]))
      (tp_workers (tp_run (tp_new 1) [TP_runTask 7, TP_error 0 3]))"
    by code_simp
  show ?thesis
    using h1 h2 h3 busy_worker_error_puts_worker_out_of_use
      [where n = 1 and evs = "[TP_runTask 7]" and w = 0 and t = "\<lparr>tid = 0, data = 7\<rparr>"
         and e = 3 and evs' = "[TP_runTask 8, TP_message 0 5]" and s = "tp_new 1" and v = 0
         and m = 1 and ?evs0.0 = "[TP_runTask 7, TP_error 0 3]"
         and evs'' = "[TP_runTask 8, TP_message 0 5]"]
    by blast
qed

end
